theory Spec2Isabelle
  imports Complex_Main
begin

section \<open>Values, errors and configuration\<close>

text \<open>
  The engine is the JavaScript of \<^verbatim>\<open>BirdBrain\<close>: a layered feed-forward network, its
  flat serialisation (the "save"), genomes, generations and the history of generations.
  JavaScript numbers are idealised as reals. The other values a weight or a neuron value
  can hold are kept apart, since the code produces them: \<open>undefined\<close> when a flat weight
  array is read past its end, \<open>null\<close> when \<^verbatim>\<open>JSON.stringify\<close> meets \<open>undefined\<close> or
  \<open>NaN\<close>, and \<open>NaN\<close> when arithmetic meets \<open>undefined\<close>.
\<close>

datatype jsval = Num real | NaN | Undefined | Null

datatype error = TypeError | SyntaxError

text \<open>A function that returns \<^verbatim>\<open>false\<close> or a value.\<close>

datatype 'a or_false = JFalse | Val 'a

text \<open>\<^verbatim>\<open>ToNumber\<close>: \<open>None\<close> stands for \<open>NaN\<close>.\<close>

fun to_number :: "jsval \<Rightarrow> real option" where
  "to_number (Num r) = Some r"
| "to_number NaN = None"
| "to_number Undefined = None"
| "to_number Null = Some 0"

definition js_add :: "jsval \<Rightarrow> jsval \<Rightarrow> jsval" where
  "js_add a b =
     (case to_number a of None \<Rightarrow> NaN
      | Some x \<Rightarrow> (case to_number b of None \<Rightarrow> NaN | Some y \<Rightarrow> Num (x + y)))"

definition js_mul :: "jsval \<Rightarrow> jsval \<Rightarrow> jsval" where
  "js_mul a b =
     (case to_number a of None \<Rightarrow> NaN
      | Some x \<Rightarrow> (case to_number b of None \<Rightarrow> NaN | Some y \<Rightarrow> Num (x * y)))"

text \<open>
  A slot of a JavaScript array that may be sparse: \<open>Some v\<close> holds \<open>v\<close>, \<open>None\<close> is a
  hole. Reading a hole, or past the end, gives \<open>undefined\<close>; \<^verbatim>\<open>for ... in\<close> skips holes;
  an assignment past the end extends the array and leaves holes behind it.
\<close>

definition js_nth :: "jsval option list \<Rightarrow> nat \<Rightarrow> jsval" where
  "js_nth xs i =
     (if i < length xs then (case xs ! i of None \<Rightarrow> Undefined | Some v \<Rightarrow> v) else Undefined)"

definition js_assign :: "jsval option list \<Rightarrow> nat \<Rightarrow> jsval \<Rightarrow> jsval option list" where
  "js_assign xs i v =
     (if i < length xs then xs[i := Some v]
      else xs @ replicate (i - length xs) None @ [Some v])"

text \<open>\<^verbatim>\<open>JSON.parse(JSON.stringify(v))\<close> on a value and on an array slot.\<close>

fun JSON_value :: "jsval \<Rightarrow> jsval" where
  "JSON_value (Num r) = Num r"
| "JSON_value NaN = Null"
| "JSON_value Undefined = Null"
| "JSON_value Null = Null"

fun JSON_slot :: "jsval option \<Rightarrow> jsval option" where
  "JSON_slot None = Some Null"
| "JSON_slot (Some v) = Some (JSON_value v)"

text \<open>\<^verbatim>\<open>Math.round\<close> rounds half up.\<close>

definition Math_round :: "real \<Rightarrow> int" where
  "Math_round x = \<lfloor>x + 1 / 2\<rfloor>"

text \<open>
  The object \<^verbatim>\<open>options\<close>. The sizes of the layers are naturals; \<^verbatim>\<open>population\<close>,
  \<^verbatim>\<open>historic\<close> and \<^verbatim>\<open>nbChild\<close> are integers, since the code compares them with lengths
  and tests \<^verbatim>\<open>historic\<close> against \<open>-1\<close> and \<^verbatim>\<open>nbChild\<close> against 0; the rates are numbers.
  \<^verbatim>\<open>activation\<close> is a field: it is a function of the sum alone, and any function may
  replace the default below. \<^verbatim>\<open>randomClamped\<close> is the default of the source,
  \<^verbatim>\<open>Math.random() * 2 - 1\<close>. \<^verbatim>\<open>Math.random\<close> is a stream \<open>rnd\<close> of draws and a counter
  \<open>k\<close> of the draws made so far; every function that draws returns the new counter.
\<close>

record options =
  activation :: "jsval \<Rightarrow> jsval"
  network_opt :: "nat \<times> nat list \<times> nat"
  population :: int
  elitism :: real
  randomBehaviour :: real
  mutationRate :: real
  mutationRange :: real
  historic :: int
  lowHistoric :: bool
  scoreSort :: real
  nbChild :: int

definition activation_default :: "jsval \<Rightarrow> jsval" where
  "activation_default a =
     (case to_number a of None \<Rightarrow> NaN | Some x \<Rightarrow> Num (1 / (1 + exp (- x))))"

definition randomClamped :: "(nat \<Rightarrow> real) \<Rightarrow> nat \<Rightarrow> jsval \<times> nat" where
  "randomClamped rnd k = (Num (rnd k * 2 - 1), Suc k)"

section \<open>Neurons, layers and networks\<close>

record neuron =
  value_neuron :: jsval
  weights :: "jsval list"

record layer =
  id_layer :: nat
  neurons :: "neuron list"

record network =
  layers :: "layer list"

text \<open>
  The serialised network: neurons per layer, and every weight in one flat array. The
  weights of a neuron are pushed one by one or assigned in range, so that array has no
  hole; the flat array of a save is assigned by index in \<^verbatim>\<open>breed\<close>, so it is a list of
  slots.
\<close>

record save =
  neurons_save :: "nat list"
  weights_save :: "jsval option list"

definition Neuron :: neuron where
  "Neuron = \<lparr>value_neuron = Num 0, weights = []\<rparr>"

definition Layer :: "nat \<Rightarrow> layer" where
  "Layer index = \<lparr>id_layer = index, neurons = []\<rparr>"

definition Network :: network where
  "Network = \<lparr>layers = []\<rparr>"

text \<open>\<^verbatim>\<open>Neuron.populate\<close>: \<open>nb\<close> pushes of \<^verbatim>\<open>options.randomClamped()\<close>.\<close>

fun push_random :: "nat \<Rightarrow> jsval list \<Rightarrow> (nat \<Rightarrow> real) \<Rightarrow> nat \<Rightarrow> jsval list \<times> nat" where
  "push_random 0 ws rnd k = (ws, k)"
| "push_random (Suc nb) ws rnd k =
     (case randomClamped rnd k of (v, k') \<Rightarrow> push_random nb (ws @ [v]) rnd k')"

definition Neuron_populate :: "neuron \<Rightarrow> nat \<Rightarrow> (nat \<Rightarrow> real) \<Rightarrow> nat \<Rightarrow> neuron \<times> nat" where
  "Neuron_populate this nb rnd k =
     (case push_random nb [] rnd k of (ws, k') \<Rightarrow> (this\<lparr>weights := ws\<rparr>, k'))"

text \<open>\<^verbatim>\<open>Layer.populate\<close>: \<open>nbNeurons\<close> fresh neurons of \<open>nbInputs\<close> random weights each.\<close>

fun push_neurons ::
  "nat \<Rightarrow> nat \<Rightarrow> neuron list \<Rightarrow> (nat \<Rightarrow> real) \<Rightarrow> nat \<Rightarrow> neuron list \<times> nat" where
  "push_neurons 0 nbInputs ns rnd k = (ns, k)"
| "push_neurons (Suc nbNeurons) nbInputs ns rnd k =
     (case Neuron_populate Neuron nbInputs rnd k of
        (n, k') \<Rightarrow> push_neurons nbNeurons nbInputs (ns @ [n]) rnd k')"

definition Layer_populate ::
  "layer \<Rightarrow> nat \<Rightarrow> nat \<Rightarrow> (nat \<Rightarrow> real) \<Rightarrow> nat \<Rightarrow> layer \<times> nat" where
  "Layer_populate this nbNeurons nbInputs rnd k =
     (case push_neurons nbNeurons nbInputs [] rnd k of (ns, k') \<Rightarrow> (this\<lparr>neurons := ns\<rparr>, k'))"

text \<open>
  \<^verbatim>\<open>Network.perceptronGeneration\<close>: the input layer, one layer per entry of \<open>hidden\<close>,
  the output layer, each pushed onto \<^verbatim>\<open>this.layers\<close>.
\<close>

fun hidden_loop ::
  "nat list \<Rightarrow> nat \<Rightarrow> nat \<Rightarrow> layer list \<Rightarrow> (nat \<Rightarrow> real) \<Rightarrow> nat
     \<Rightarrow> (layer list \<times> nat \<times> nat) \<times> nat" where
  "hidden_loop [] previousNeurons index ls rnd k = ((ls, previousNeurons, index), k)"
| "hidden_loop (h # hs) previousNeurons index ls rnd k =
     (case Layer_populate (Layer index) h previousNeurons rnd k of
        (l, k') \<Rightarrow> hidden_loop hs h (Suc index) (ls @ [l]) rnd k')"

definition perceptronGeneration ::
  "network \<Rightarrow> nat \<Rightarrow> nat list \<Rightarrow> nat \<Rightarrow> (nat \<Rightarrow> real) \<Rightarrow> nat \<Rightarrow> network \<times> nat" where
  "perceptronGeneration this input hidden output rnd k =
     (case Layer_populate (Layer 0) input 0 rnd k of
        (l0, k0) \<Rightarrow>
          (case hidden_loop hidden input 1 (layers this @ [l0]) rnd k0 of
             ((ls, previousNeurons, index), k1) \<Rightarrow>
               (case Layer_populate (Layer index) output previousNeurons rnd k1 of
                  (lo, k2) \<Rightarrow> (this\<lparr>layers := ls @ [lo]\<rparr>, k2))))"

text \<open>\<^verbatim>\<open>Network.getSave\<close>: the loop over the layers, pushing onto \<^verbatim>\<open>dataSet\<close>.\<close>

fun getSave_loop :: "layer list \<Rightarrow> save \<Rightarrow> save" where
  "getSave_loop [] dataSet = dataSet"
| "getSave_loop (l # ls) dataSet =
     getSave_loop ls
       (dataSet\<lparr>neurons_save := neurons_save dataSet @ [length (neurons l)],
                weights_save := weights_save dataSet
                  @ concat (map (\<lambda>n. map Some (weights n)) (neurons l))\<rparr>)"

definition getSave :: "network \<Rightarrow> save" where
  "getSave this = getSave_loop (layers this) \<lparr>neurons_save = [], weights_save = []\<rparr>"

text \<open>
  \<^verbatim>\<open>Network.setSave\<close>: each layer is populated with random weights first (the draws are
  made), then every weight is overwritten with \<^verbatim>\<open>save.weights[indexWeights]\<close>, whatever
  that read gives. There is no check of the length of \<^verbatim>\<open>save.weights\<close>.
\<close>

fun assign_weights :: "jsval option list \<Rightarrow> neuron list \<Rightarrow> nat \<Rightarrow> neuron list \<times> nat" where
  "assign_weights sw [] indexWeights = ([], indexWeights)"
| "assign_weights sw (n # ns) indexWeights =
     (case assign_weights sw ns (indexWeights + length (weights n)) of
        (ns', iw) \<Rightarrow>
          (n\<lparr>weights := map (js_nth sw) [indexWeights ..< indexWeights + length (weights n)]\<rparr>
             # ns', iw))"

fun setSave_loop ::
  "jsval option list \<Rightarrow> nat list \<Rightarrow> nat \<Rightarrow> nat \<Rightarrow> nat \<Rightarrow> layer list \<Rightarrow> (nat \<Rightarrow> real) \<Rightarrow> nat
     \<Rightarrow> layer list \<times> nat" where
  "setSave_loop sw [] previousNeurons index indexWeights ls rnd k = (ls, k)"
| "setSave_loop sw (c # cs) previousNeurons index indexWeights ls rnd k =
     (case Layer_populate (Layer index) c previousNeurons rnd k of
        (l, k') \<Rightarrow>
          (case assign_weights sw (neurons l) indexWeights of
             (ns, iw) \<Rightarrow>
               setSave_loop sw cs c (Suc index) iw (ls @ [l\<lparr>neurons := ns\<rparr>]) rnd k'))"

definition setSave :: "network \<Rightarrow> save \<Rightarrow> (nat \<Rightarrow> real) \<Rightarrow> nat \<Rightarrow> network \<times> nat" where
  "setSave this sv rnd k =
     (case setSave_loop (weights_save sv) (neurons_save sv) 0 0 0 [] rnd k of
        (ls, k') \<Rightarrow> (this\<lparr>layers := ls\<rparr>, k'))"

text \<open>
  \<^verbatim>\<open>Network.compute\<close>. The input loop writes \<^verbatim>\<open>inputs[i]\<close> only where the input layer
  has a neuron \<open>i\<close>; a neuron beyond the inputs keeps its value. The sum over the previous
  layer reads \<^verbatim>\<open>weights[k]\<close>, \<open>undefined\<close> past the end. With no layers, reading
  \<^verbatim>\<open>lastLayer.neurons\<close> throws.
\<close>

fun set_inputs :: "neuron list \<Rightarrow> jsval list \<Rightarrow> neuron list" where
  "set_inputs [] inputs = []"
| "set_inputs (n # ns) [] = n # ns"
| "set_inputs (n # ns) (x # inputs) = n\<lparr>value_neuron := x\<rparr> # set_inputs ns inputs"

fun weighted_sum :: "neuron list \<Rightarrow> jsval list \<Rightarrow> nat \<Rightarrow> jsval \<Rightarrow> jsval" where
  "weighted_sum [] ws k sum_acc = sum_acc"
| "weighted_sum (p # ps) ws k sum_acc =
     weighted_sum ps ws (Suc k)
       (js_add sum_acc (js_mul (value_neuron p) (if k < length ws then ws ! k else Undefined)))"

definition compute_layer :: "options \<Rightarrow> layer \<Rightarrow> layer \<Rightarrow> layer" where
  "compute_layer opts prevLayer l =
     l\<lparr>neurons :=
         map (\<lambda>n. n\<lparr>value_neuron :=
                      activation opts (weighted_sum (neurons prevLayer) (weights n) 0 (Num 0))\<rparr>)
           (neurons l)\<rparr>"

fun compute_loop :: "options \<Rightarrow> layer \<Rightarrow> layer list \<Rightarrow> layer list" where
  "compute_loop opts prevLayer [] = []"
| "compute_loop opts prevLayer (l # ls) =
     (let l' = compute_layer opts prevLayer l in l' # compute_loop opts l' ls)"

definition compute :: "options \<Rightarrow> network \<Rightarrow> jsval list \<Rightarrow> error + (jsval list \<times> network)" where
  "compute opts this inputs =
     (case layers this of
        [] \<Rightarrow> Inl TypeError
      | l0 # ls \<Rightarrow>
          (let l0' = l0\<lparr>neurons := set_inputs (neurons l0) inputs\<rparr>;
               ls' = l0' # compute_loop opts l0' ls
           in Inr (map value_neuron (neurons (last ls')), this\<lparr>layers := ls'\<rparr>)))"

section \<open>Genomes and generations\<close>

record genome =
  score :: real
  network :: save

text \<open>
  The constructor: \<^verbatim>\<open>this.score = score || 0\<close>, where \<open>NaN\<close>, \<open>undefined\<close> and \<open>null\<close>
  are falsy, so a score is a number. The network is the save that \<^verbatim>\<open>getSave\<close> returns,
  an object, which \<^verbatim>\<open>network || null\<close> keeps. The one statement that deletes a network
  stands behind the read of \<^verbatim>\<open>self\<close> in \<^verbatim>\<open>BirdBrain.nextGeneration\<close> and is never
  reached, so every genome has its network.
\<close>

definition Genome :: "jsval \<Rightarrow> save \<Rightarrow> genome" where
  "Genome sc nw = \<lparr>score = (case sc of Num r \<Rightarrow> r | _ \<Rightarrow> 0), network = nw\<rparr>"

record Generation =
  genomes :: "genome list"

definition JSON_save :: "save \<Rightarrow> save" where
  "JSON_save sv = sv\<lparr>weights_save := map JSON_slot (weights_save sv)\<rparr>"

definition JSON_genome :: "genome \<Rightarrow> genome" where
  "JSON_genome g = g\<lparr>network := JSON_save (network g)\<rparr>"

text \<open>
  \<^verbatim>\<open>Generation.addGenome\<close>: the scan for the first genome that the new one beats, then
  \<^verbatim>\<open>splice(i, 0, genome)\<close>.
\<close>

fun addGenome_index :: "options \<Rightarrow> genome \<Rightarrow> genome list \<Rightarrow> nat \<Rightarrow> nat" where
  "addGenome_index opts g [] i = i"
| "addGenome_index opts g (x # xs) i =
     (if scoreSort opts < 0
      then (if score g > score x then i else addGenome_index opts g xs (Suc i))
      else (if score g < score x then i else addGenome_index opts g xs (Suc i)))"

definition Generation_addGenome :: "options \<Rightarrow> Generation \<Rightarrow> genome \<Rightarrow> Generation" where
  "Generation_addGenome opts this g =
     (let i = addGenome_index opts g (genomes this) 0
      in this\<lparr>genomes := take i (genomes this) @ g # drop i (genomes this)\<rparr>)"

text \<open>
  \<^verbatim>\<open>Generation.breed\<close>. Each child is a JSON clone of \<open>g1\<close>. The crossover loop runs over
  the indices of \<open>g2\<close>'s weights, one draw for each; the mutation loop runs over the
  child's weights, one draw for each and a second one for a weight that mutates. Both
  tests are \<^verbatim>\<open>Math.random() <= ...\<close>.
\<close>

fun crossover ::
  "jsval option list \<Rightarrow> jsval option list \<Rightarrow> nat \<Rightarrow> (nat \<Rightarrow> real) \<Rightarrow> nat
     \<Rightarrow> jsval option list \<times> nat" where
  "crossover dw [] i rnd k = (dw, k)"
| "crossover dw (None # ws2) i rnd k = crossover dw ws2 (Suc i) rnd k"
| "crossover dw (Some v # ws2) i rnd k =
     crossover (if rnd k \<le> 1 / 2 then js_assign dw i v else dw) ws2 (Suc i) rnd (Suc k)"

fun mutation ::
  "options \<Rightarrow> jsval option list \<Rightarrow> (nat \<Rightarrow> real) \<Rightarrow> nat \<Rightarrow> jsval option list \<times> nat" where
  "mutation opts [] rnd k = ([], k)"
| "mutation opts (None # ws) rnd k =
     (case mutation opts ws rnd k of (ws', k') \<Rightarrow> (None # ws', k'))"
| "mutation opts (Some w # ws) rnd k =
     (if rnd k \<le> mutationRate opts
      then (case mutation opts ws rnd (Suc (Suc k)) of
              (ws', k') \<Rightarrow>
                (Some (js_add w (Num (rnd (Suc k) * mutationRange opts * 2 - mutationRange opts)))
                   # ws', k'))
      else (case mutation opts ws rnd (Suc k) of (ws', k') \<Rightarrow> (Some w # ws', k')))"

fun breed_loop ::
  "options \<Rightarrow> genome \<Rightarrow> genome \<Rightarrow> nat \<Rightarrow> genome list \<Rightarrow> (nat \<Rightarrow> real) \<Rightarrow> nat
     \<Rightarrow> genome list \<times> nat" where
  "breed_loop opts g1 g2 0 dataSet rnd k = (dataSet, k)"
| "breed_loop opts g1 g2 (Suc nb) dataSet rnd k =
     (let data = JSON_genome g1 in
      case crossover (weights_save (network data)) (weights_save (network g2)) 0 rnd k of
        (cw, k1) \<Rightarrow>
          (case mutation opts cw rnd k1 of
             (mw, k2) \<Rightarrow>
               breed_loop opts g1 g2 nb
                 (dataSet @ [data\<lparr>network := (network data)\<lparr>weights_save := mw\<rparr>\<rparr>]) rnd k2))"

definition breed ::
  "options \<Rightarrow> genome \<Rightarrow> genome \<Rightarrow> nat \<Rightarrow> (nat \<Rightarrow> real) \<Rightarrow> nat \<Rightarrow> genome list \<times> nat" where
  "breed opts g1 g2 nbchildren rnd k = breed_loop opts g1 g2 nbchildren [] rnd k"

text \<open>
  \<^verbatim>\<open>Generation.generateNextGeneration\<close>, stage one: the elite. The push is guarded by
  \<^verbatim>\<open>nexts.length < options.population\<close>; \<^verbatim>\<open>this.genomes[i].network\<close> throws when there is
  no genome \<open>i\<close>.
\<close>

fun elitism_loop ::
  "options \<Rightarrow> genome list \<Rightarrow> nat \<Rightarrow> nat \<Rightarrow> save list \<Rightarrow> error + save list" where
  "elitism_loop opts gs 0 i nexts = Inr nexts"
| "elitism_loop opts gs (Suc n) i nexts =
     (if int (length nexts) < population opts
      then (if i < length gs
            then elitism_loop opts gs n (Suc i) (nexts @ [JSON_save (network (gs ! i))])
            else Inl TypeError)
      else elitism_loop opts gs n (Suc i) nexts)"

text \<open>
  Stage two: random networks of genome 0's shape. The clone and the draws are made on
  every turn of the loop, the push under the same guard.
\<close>

fun randomize ::
  "jsval option list \<Rightarrow> (nat \<Rightarrow> real) \<Rightarrow> nat \<Rightarrow> jsval option list \<times> nat" where
  "randomize [] rnd k = ([], k)"
| "randomize (None # ws) rnd k =
     (case randomize ws rnd k of (ws', k') \<Rightarrow> (None # ws', k'))"
| "randomize (Some w # ws) rnd k =
     (case randomClamped rnd k of
        (v, k1) \<Rightarrow> (case randomize ws rnd k1 of (ws', k') \<Rightarrow> (Some v # ws', k')))"

fun random_loop ::
  "options \<Rightarrow> genome list \<Rightarrow> nat \<Rightarrow> save list \<Rightarrow> (nat \<Rightarrow> real) \<Rightarrow> nat
     \<Rightarrow> error + (save list \<times> nat)" where
  "random_loop opts gs 0 nexts rnd k = Inr (nexts, k)"
| "random_loop opts gs (Suc n) nexts rnd k =
     (case gs of
        [] \<Rightarrow> Inl TypeError
      | g0 # _ \<Rightarrow>
          (let nw = JSON_save (network g0) in
           case randomize (weights_save nw) rnd k of
             (ws, k') \<Rightarrow>
               random_loop opts gs n
                 (if int (length nexts) < population opts
                  then nexts @ [nw\<lparr>weights_save := ws\<rparr>] else nexts) rnd k'))"

text \<open>
  Stage three: the children of one pair are pushed one by one, and the function returns
  as soon as \<^verbatim>\<open>nexts.length >= options.population\<close> holds after a push. The test comes
  after the push, and nowhere else.
\<close>

fun push_children :: "options \<Rightarrow> genome list \<Rightarrow> save list \<Rightarrow> save list \<times> bool" where
  "push_children opts [] nexts = (nexts, False)"
| "push_children opts (c # cs) nexts =
     (if int (length (nexts @ [network c])) \<ge> population opts
      then (nexts @ [network c], True)
      else push_children opts cs (nexts @ [network c]))"

text \<open>
  The \<^verbatim>\<open>while (true)\<close> loop with its inner \<^verbatim>\<open>for (i < max)\<close>, as one function of
  \<open>max\<close> and \<open>i\<close>. It may run forever, so it returns an option: \<open>None\<close> is "never
  returns". After the inner loop \<open>max\<close> is incremented, and reset to 0 when
  \<^verbatim>\<open>max >= this.genomes.length - 1\<close>. The two errors are what \<^verbatim>\<open>breed\<close> throws on a
  genome that does not exist: \<^verbatim>\<open>JSON.parse(JSON.stringify(undefined))\<close> for \<open>g1\<close>, the
  read of \<^verbatim>\<open>g2.network\<close> for \<open>g2\<close>.
\<close>

partial_function (option) breeding ::
  "options \<Rightarrow> genome list \<Rightarrow> nat \<Rightarrow> nat \<Rightarrow> save list \<Rightarrow> (nat \<Rightarrow> real) \<Rightarrow> nat
     \<Rightarrow> (error + (save list \<times> nat)) option" where
  "breeding opts gs max_g i nexts rnd k =
     (if i < max_g
      then (if i < length gs
            then (if max_g < length gs
                  then (case breed opts (gs ! i) (gs ! max_g)
                               (nat (if nbChild opts > 0 then nbChild opts else 1)) rnd k of
                          (children, k') \<Rightarrow>
                            (case push_children opts children nexts of
                               (nexts', done) \<Rightarrow>
                                 (if done then Some (Inr (nexts', k'))
                                  else breeding opts gs max_g (Suc i) nexts' rnd k')))
                  else Some (Inl TypeError))
            else Some (Inl SyntaxError))
      else breeding opts gs
             (if int (Suc max_g) \<ge> int (length gs) - 1 then 0 else Suc max_g) 0 nexts rnd k)"

declare breeding.simps [code]

definition generateNextGeneration ::
  "options \<Rightarrow> Generation \<Rightarrow> (nat \<Rightarrow> real) \<Rightarrow> nat \<Rightarrow> (error + (save list \<times> nat)) option" where
  "generateNextGeneration opts this rnd k =
     (case elitism_loop opts (genomes this)
             (nat (Math_round (elitism opts * real_of_int (population opts)))) 0 [] of
        Inl e \<Rightarrow> Some (Inl e)
      | Inr nexts1 \<Rightarrow>
          (case random_loop opts (genomes this)
                  (nat (Math_round (randomBehaviour opts * real_of_int (population opts))))
                  nexts1 rnd k of
             Inl e \<Rightarrow> Some (Inl e)
           | Inr (nexts2, k') \<Rightarrow> breeding opts (genomes this) 0 0 nexts2 rnd k'))"

section \<open>The history of generations and the engine\<close>

record Generations =
  generations :: "Generation list"

record BirdBrain =
  generations_brain :: Generations

fun firstGeneration_loop ::
  "options \<Rightarrow> nat \<Rightarrow> save list \<Rightarrow> (nat \<Rightarrow> real) \<Rightarrow> nat \<Rightarrow> save list \<times> nat" where
  "firstGeneration_loop opts 0 out rnd k = (out, k)"
| "firstGeneration_loop opts (Suc n) out rnd k =
     (case network_opt opts of
        (input, hidden, output) \<Rightarrow>
          (case perceptronGeneration Network input hidden output rnd k of
             (nn, k') \<Rightarrow> firstGeneration_loop opts n (out @ [getSave nn]) rnd k'))"

definition firstGeneration ::
  "options \<Rightarrow> Generations \<Rightarrow> (nat \<Rightarrow> real) \<Rightarrow> nat \<Rightarrow> save list \<times> Generations \<times> nat" where
  "firstGeneration opts this rnd k =
     (case firstGeneration_loop opts (nat (population opts)) [] rnd k of
        (out, k') \<Rightarrow>
          (out, this\<lparr>generations := generations this @ [\<lparr>genomes = []\<rparr>]\<rparr>, k'))"

text \<open>
  \<^verbatim>\<open>Generations.nextGeneration\<close> returns \<^verbatim>\<open>false\<close> on an empty history, and otherwise
  what the last generation's \<^verbatim>\<open>generateNextGeneration\<close> returns, after pushing a new
  generation.
\<close>

definition Generations_nextGeneration ::
  "options \<Rightarrow> Generations \<Rightarrow> (nat \<Rightarrow> real) \<Rightarrow> nat
     \<Rightarrow> (error + (save list or_false \<times> Generations \<times> nat)) option" where
  "Generations_nextGeneration opts this rnd k =
     (if length (generations this) = 0 then Some (Inr (JFalse, this, k))
      else (case generateNextGeneration opts (last (generations this)) rnd k of
              None \<Rightarrow> None
            | Some (Inl e) \<Rightarrow> Some (Inl e)
            | Some (Inr (gen, k')) \<Rightarrow>
                Some (Inr (Val gen,
                           this\<lparr>generations := generations this @ [\<lparr>genomes = []\<rparr>]\<rparr>, k'))))"

definition Generations_addGenome ::
  "options \<Rightarrow> Generations \<Rightarrow> genome \<Rightarrow> unit or_false \<times> Generations" where
  "Generations_addGenome opts this g =
     (if length (generations this) = 0 then (JFalse, this)
      else (Val (),
            this\<lparr>generations :=
                   butlast (generations this)
                     @ [Generation_addGenome opts (last (generations this)) g]\<rparr>))"

text \<open>
  \<^verbatim>\<open>BirdBrain.nextGeneration\<close>. Every save becomes a network through \<^verbatim>\<open>setSave\<close>. With
  \<^verbatim>\<open>lowHistoric\<close> and two generations or more, the index expression reads
  \<^verbatim>\<open>self.generations.generations\<close>: no \<^verbatim>\<open>self\<close> is bound in the class, in the browser it
  is the window, which has no property \<^verbatim>\<open>generations\<close>, and the read throws before any
  network is deleted. Then \<^verbatim>\<open>splice(0, length - (historic + 1))\<close> drops the oldest
  generations, unless \<^verbatim>\<open>historic\<close> is \<open>-1\<close>. An exception leaves the engine as it is at
  the throw, so the error comes with the state: unchanged when the last generation's
  \<^verbatim>\<open>generateNextGeneration\<close> throws, with the new generation pushed when the read of
  \<^verbatim>\<open>self\<close> throws.
\<close>

fun setSave_all ::
  "save list \<Rightarrow> network list \<Rightarrow> (nat \<Rightarrow> real) \<Rightarrow> nat \<Rightarrow> network list \<times> nat" where
  "setSave_all [] nns rnd k = (nns, k)"
| "setSave_all (sv # svs) nns rnd k =
     (case setSave Network sv rnd k of (nn, k') \<Rightarrow> setSave_all svs (nns @ [nn]) rnd k')"

definition remove_older :: "options \<Rightarrow> Generations \<Rightarrow> Generations" where
  "remove_older opts gens =
     (if historic opts \<noteq> - 1
      then (if int (length (generations gens)) > historic opts + 1
            then gens\<lparr>generations :=
                        drop (nat (int (length (generations gens)) - (historic opts + 1)))
                          (generations gens)\<rparr>
            else gens)
      else gens)"

definition BirdBrain_nextGeneration ::
  "options \<Rightarrow> BirdBrain \<Rightarrow> (nat \<Rightarrow> real) \<Rightarrow> nat
     \<Rightarrow> (error \<times> BirdBrain \<times> nat + network list \<times> BirdBrain \<times> nat) option" where
  "BirdBrain_nextGeneration opts this rnd k =
     (case (if length (generations (generations_brain this)) = 0
            then (case firstGeneration opts (generations_brain this) rnd k of
                    (out, gens, k') \<Rightarrow> Some (Inr (Val out, gens, k')))
            else Generations_nextGeneration opts (generations_brain this) rnd k) of
        None \<Rightarrow> None
      | Some (Inl e) \<Rightarrow> Some (Inl (e, this, k))
      | Some (Inr (networks, gens, k1)) \<Rightarrow>
          (case setSave_all (case networks of JFalse \<Rightarrow> [] | Val ns \<Rightarrow> ns) [] rnd k1 of
             (nns, k2) \<Rightarrow>
               (if lowHistoric opts \<and> length (generations gens) \<ge> 2
                then Some (Inl (TypeError, this\<lparr>generations_brain := gens\<rparr>, k2))
                else Some (Inr (nns, this\<lparr>generations_brain := remove_older opts gens\<rparr>, k2)))))"

definition BirdBrain_networkScore ::
  "options \<Rightarrow> BirdBrain \<Rightarrow> network \<Rightarrow> jsval \<Rightarrow> BirdBrain" where
  "BirdBrain_networkScore opts this nw sc =
     this\<lparr>generations_brain :=
            snd (Generations_addGenome opts (generations_brain this) (Genome sc (getSave nw)))\<rparr>"

section \<open>Notions used in the statements\<close>

text \<open>
  \<open>beats opts a b\<close>: genome \<open>a\<close> is strictly better than \<open>b\<close> under \<^verbatim>\<open>options.scoreSort\<close>
  (a negative value sorts in descending order). A list is in order when no genome is
  beaten by a later one.
\<close>

definition beats :: "options \<Rightarrow> genome \<Rightarrow> genome \<Rightarrow> bool" where
  "beats opts a b = (if scoreSort opts < 0 then score a > score b else score a < score b)"

definition in_order :: "options \<Rightarrow> genome list \<Rightarrow> bool" where
  "in_order opts gs = sorted_wrt (\<lambda>a b. \<not> beats opts b a) gs"

text \<open>A new generation after a sequence of \<^verbatim>\<open>addGenome\<close> calls.\<close>

definition addGenomes :: "options \<Rightarrow> genome list \<Rightarrow> Generation" where
  "addGenomes opts gs = foldl (Generation_addGenome opts) \<lparr>genomes = []\<rparr> gs"

text \<open>
  What \<^verbatim>\<open>setSave\<close> builds, without the random draws that are overwritten: every neuron has
  value 0 and the next \<open>prev\<close> reads of the flat array as weights. \<open>weight_count\<close> is the
  number of weights that a neurons-per-layer descriptor implies.
\<close>

fun saved_neurons :: "jsval option list \<Rightarrow> nat \<Rightarrow> nat \<Rightarrow> nat \<Rightarrow> neuron list" where
  "saved_neurons sw 0 prev iw = []"
| "saved_neurons sw (Suc c) prev iw =
     \<lparr>value_neuron = Num 0, weights = map (js_nth sw) [iw ..< iw + prev]\<rparr>
       # saved_neurons sw c prev (iw + prev)"

fun saved_layers :: "jsval option list \<Rightarrow> nat list \<Rightarrow> nat \<Rightarrow> nat \<Rightarrow> nat \<Rightarrow> layer list" where
  "saved_layers sw [] prev index iw = []"
| "saved_layers sw (c # cs) prev index iw =
     \<lparr>id_layer = index, neurons = saved_neurons sw c prev iw\<rparr>
       # saved_layers sw cs c (Suc index) (iw + c * prev)"

fun weight_count :: "nat \<Rightarrow> nat list \<Rightarrow> nat" where
  "weight_count prev [] = 0"
| "weight_count prev (c # cs) = c * prev + weight_count c cs"

text \<open>A neuron as \<^verbatim>\<open>populate\<close> leaves it: value 0 and \<open>nb\<close> weights.\<close>

definition fresh :: "nat \<Rightarrow> neuron \<Rightarrow> bool" where
  "fresh nb n = (value_neuron n = Num 0 \<and> length (weights n) = nb)"

text \<open>
  The shape of a network that \<^verbatim>\<open>perceptronGeneration\<close> or \<^verbatim>\<open>setSave\<close> builds: layer \<open>i\<close>
  has id \<open>i\<close>, the neurons of the input layer have no weights and the neurons of every
  other layer have one weight for each neuron of the layer before. \<open>reset_layer\<close> sets
  every neuron value back to 0.
\<close>

fun wf_layers :: "nat \<Rightarrow> nat \<Rightarrow> layer list \<Rightarrow> bool" where
  "wf_layers prev index [] = True"
| "wf_layers prev index (l # ls) =
     (id_layer l = index \<and> list_all (\<lambda>n. length (weights n) = prev) (neurons l)
      \<and> wf_layers (length (neurons l)) (Suc index) ls)"

definition wf_network :: "network \<Rightarrow> bool" where
  "wf_network n = wf_layers 0 0 (layers n)"

definition reset_neuron :: "neuron \<Rightarrow> neuron" where
  "reset_neuron n = n\<lparr>value_neuron := Num 0\<rparr>"

definition reset_layer :: "layer \<Rightarrow> layer" where
  "reset_layer l = l\<lparr>neurons := map reset_neuron (neurons l)\<rparr>"

text \<open>A flat weight array without holes whose entries are all numbers.\<close>

definition nums :: "real list \<Rightarrow> jsval option list" where
  "nums xs = map (\<lambda>x. Some (Num x)) xs"

section \<open>Concrete inputs\<close>

text \<open>
  The configuration of the scenario with four networks of topology \<open>(2, [2], 1)\<close>, and
  small genomes over the topology \<open>(1, 1)\<close> with a single weight.
\<close>

definition opts0 :: options where
  "opts0 = \<lparr>activation = (\<lambda>v. v), network_opt = (2, [2], 1), population = 4,
            elitism = 1 / 4, randomBehaviour = 1 / 4, mutationRate = 1 / 10,
            mutationRange = 1 / 2, historic = 0, lowHistoric = False, scoreSort = - 1,
            nbChild = 1\<rparr>"

definition sv0 :: "real \<Rightarrow> save" where
  "sv0 w = \<lparr>neurons_save = [1, 1], weights_save = [Some (Num w)]\<rparr>"

definition gm :: "real \<Rightarrow> real \<Rightarrow> genome" where
  "gm s w = Genome (Num s) (sv0 w)"

text \<open>A stream of draws, and the network of topology \<open>(2, [2], 1)\<close> built from it.\<close>

definition rnd0 :: "nat \<Rightarrow> real" where
  "rnd0 n = real n / 8"

definition n0 :: network where
  "n0 = fst (perceptronGeneration Network 2 [2] 1 rnd0 0)"

text \<open>
  Two saves for the topology \<open>(1, 1)\<close>, which has one weight: one with no weight at all and
  one with a weight too many.
\<close>

definition sv_short :: save where
  "sv_short = \<lparr>neurons_save = [1, 1], weights_save = []\<rparr>"

definition sv_long :: save where
  "sv_long = \<lparr>neurons_save = [1, 1], weights_save = [Some (Num 5), Some (Num 7)]\<rparr>"

text \<open>
  A generation of four scored genomes, as \<^verbatim>\<open>addGenome\<close> orders them, and histories that
  hold it. \<open>opts1\<close> keeps half of the population as elite and fills the other half with
  random networks; \<open>optsL\<close> sets \<^verbatim>\<open>lowHistoric\<close>; \<open>optsM\<close> sets \<^verbatim>\<open>mutationRate\<close> to 0.
  \<open>rndZ\<close> is a stream whose draws after the first are 0. \<open>nn0 w\<close> is the network that
  \<^verbatim>\<open>setSave\<close> builds from \<open>sv0 w\<close>.
\<close>

definition gen4 :: Generation where
  "gen4 = addGenomes opts0 [gm 10 1, gm 40 2, gm 20 3, gm 5 4]"

definition opts1 :: options where
  "opts1 = opts0\<lparr>elitism := 1 / 2, randomBehaviour := 1 / 2\<rparr>"

definition optsL :: options where
  "optsL = opts0\<lparr>lowHistoric := True\<rparr>"

definition optsM :: options where
  "optsM = opts0\<lparr>mutationRate := 0\<rparr>"

definition brain1 :: BirdBrain where
  "brain1 = \<lparr>generations_brain = \<lparr>generations = [gen4]\<rparr>\<rparr>"

definition brain2 :: BirdBrain where
  "brain2 = \<lparr>generations_brain = \<lparr>generations = [\<lparr>genomes = [gm 7 5]\<rparr>, gen4]\<rparr>\<rparr>"

definition nn0 :: "real \<Rightarrow> network" where
  "nn0 w = \<lparr>layers = [\<lparr>id_layer = 0, neurons = [\<lparr>value_neuron = Num 0, weights = []\<rparr>]\<rparr>,
                        \<lparr>id_layer = 1, neurons = [\<lparr>value_neuron = Num 0, weights = [Num w]\<rparr>]\<rparr>]\<rparr>"

definition rndZ :: "nat \<Rightarrow> real" where
  "rndZ n = (if n = 0 then 3 / 4 else 0)"

section \<open>Closed forms of \<^verbatim>\<open>setSave\<close> and \<^verbatim>\<open>getSave\<close>\<close>

lemma push_random_shape:
  "\<exists>new. push_random nb ws rnd k = (ws @ new, k + nb) \<and> length new = nb"
proof (induction nb arbitrary: ws k)
  case 0
  then show ?case by simp
next
  case (Suc nb)
  from Suc[of "ws @ [Num (rnd k * 2 - 1)]" "Suc k"] obtain new where
    "push_random nb (ws @ [Num (rnd k * 2 - 1)]) rnd (Suc k) = ((ws @ [Num (rnd k * 2 - 1)]) @ new, Suc k + nb)"
    "length new = nb" by blast
  then have "push_random (Suc nb) ws rnd k = (ws @ (Num (rnd k * 2 - 1) # new), k + Suc nb)
     \<and> length (Num (rnd k * 2 - 1) # new) = Suc nb"
    by (simp add: randomClamped_def)
  then show ?case by blast
qed

lemma Neuron_populate_fresh:
  "\<exists>n. Neuron_populate Neuron nb rnd k = (n, k + nb) \<and> fresh nb n"
  using push_random_shape[of nb "[]" rnd k]
  by (auto simp: Neuron_populate_def Neuron_def fresh_def)

lemma push_neurons_shape:
  "\<exists>new. push_neurons c nb ns rnd k = (ns @ new, k + c * nb) \<and> length new = c
     \<and> (\<forall>n \<in> set new. fresh nb n)"
proof (induction c arbitrary: ns k)
  case 0
  then show ?case by simp
next
  case (Suc c)
  obtain n where n: "Neuron_populate Neuron nb rnd k = (n, k + nb)" "fresh nb n"
    using Neuron_populate_fresh by blast
  from Suc[of "ns @ [n]" "k + nb"] obtain new where new:
    "push_neurons c nb (ns @ [n]) rnd (k + nb) = ((ns @ [n]) @ new, k + nb + c * nb)"
    "length new = c" "\<forall>n \<in> set new. fresh nb n" by blast
  have "push_neurons (Suc c) nb ns rnd k = (ns @ (n # new), k + Suc c * nb)"
    using n(1) new(1) by (simp add: add.assoc add.commute)
  moreover have "length (n # new) = Suc c" using new(2) by simp
  moreover have "\<forall>x \<in> set (n # new). fresh nb x" using n(2) new(3) by simp
  ultimately show ?case by blast
qed

lemma assign_weights_fresh:
  "\<forall>n \<in> set ns. fresh prev n \<Longrightarrow>
   assign_weights sw ns iw = (saved_neurons sw (length ns) prev iw, iw + length ns * prev)"
proof (induction ns arbitrary: iw)
  case Nil
  then show ?case by simp
next
  case (Cons n ns)
  then have n: "value_neuron n = Num 0" "length (weights n) = prev"
    by (simp_all add: fresh_def)
  have "assign_weights sw ns (iw + prev) = (saved_neurons sw (length ns) prev (iw + prev), iw + prev + length ns * prev)"
    using Cons by simp
  then show ?case using n by (simp add: add.assoc add.commute)
qed

lemma setSave_loop_closed:
  "setSave_loop sw cs prev index iw ls rnd k
     = (ls @ saved_layers sw cs prev index iw, k + weight_count prev cs)"
proof (induction cs arbitrary: prev index iw ls k)
  case Nil
  then show ?case by simp
next
  case (Cons c cs)
  obtain new where new: "push_neurons c prev [] rnd k = (new, k + c * prev)" "length new = c"
     "\<forall>n \<in> set new. fresh prev n"
    using push_neurons_shape[of c prev "[]" rnd k] by auto
  have aw: "assign_weights sw new iw = (saved_neurons sw c prev iw, iw + c * prev)"
    using assign_weights_fresh[OF new(3), of sw iw] new(2) by simp
  show ?case
    using new(1) aw Cons[of c "Suc index" "iw + c * prev" _ "k + c * prev"]
    by (simp add: Layer_populate_def Layer_def add.assoc)
qed

lemma setSave_closed:
  "setSave this sv rnd k
     = (this\<lparr>layers := saved_layers (weights_save sv) (neurons_save sv) 0 0 0\<rparr>,
        k + weight_count 0 (neurons_save sv))"
  by (simp add: setSave_def setSave_loop_closed)

lemma getSave_loop_closed:
  "getSave_loop ls d
     = \<lparr>neurons_save = neurons_save d @ map (\<lambda>l. length (neurons l)) ls,
        weights_save = weights_save d
          @ concat (map (\<lambda>l. concat (map (\<lambda>n. map Some (weights n)) (neurons l))) ls)\<rparr>"
  by (induction ls arbitrary: d) simp_all

lemma getSave_closed:
  "getSave this
     = \<lparr>neurons_save = map (\<lambda>l. length (neurons l)) (layers this),
        weights_save = concat (map (\<lambda>l. concat (map (\<lambda>n. map Some (weights n)) (neurons l)))
                                 (layers this))\<rparr>"
  by (simp add: getSave_def getSave_loop_closed)

section \<open>The concrete inputs, evaluated\<close>

lemmas scenario_defs = opts0_def opts1_def optsL_def gm_def Genome_def sv0_def rnd0_def
  Math_round_def JSON_save_def JSON_genome_def randomClamped_def breed_def js_assign_def Let_def

lemma gen4_val: "gen4 = \<lparr>genomes = [gm 40 2, gm 20 3, gm 10 1, gm 5 4]\<rparr>"
  by (simp add: gen4_def addGenomes_def Generation_addGenome_def opts0_def gm_def Genome_def)

lemma setSave_sv0: "setSave Network (sv0 w) rnd k = (nn0 w, Suc k)"
  by (simp add: setSave_closed sv0_def nn0_def Network_def js_nth_def)

lemma opts0_generateNextGeneration:
  "generateNextGeneration opts0 gen4 rnd0 0
     = Some (Inr ([sv0 2, sv0 (- 1), sv0 3, sv0 1], 5))"
  unfolding generateNextGeneration_def
  apply (simp add: gen4_val scenario_defs)
  apply (subst breeding.simps)
  apply (simp add: scenario_defs)
  apply (subst breeding.simps)
  apply (simp add: scenario_defs)
  apply (subst breeding.simps)
  apply (simp add: scenario_defs)
  apply (subst breeding.simps)
  apply (simp add: scenario_defs)
  done

lemma optsL_generateNextGeneration:
  "generateNextGeneration optsL gen4 rnd0 0
     = Some (Inr ([sv0 2, sv0 (- 1), sv0 3, sv0 1], 5))"
  unfolding generateNextGeneration_def
  apply (simp add: gen4_val scenario_defs)
  apply (subst breeding.simps)
  apply (simp add: scenario_defs)
  apply (subst breeding.simps)
  apply (simp add: scenario_defs)
  apply (subst breeding.simps)
  apply (simp add: scenario_defs)
  apply (subst breeding.simps)
  apply (simp add: scenario_defs)
  done

section \<open>Calls on an empty history\<close>

text \<open>
  Claim C9. With no generation in the history, \<^verbatim>\<open>Generations.nextGeneration\<close> and
  \<^verbatim>\<open>Generations.addGenome\<close> each return \<^verbatim>\<open>false\<close> and leave the history as it was:
  no generation is created, no genome is stored, no random number is drawn.
\<close>

theorem empty_history_reports_failure:
  "Generations_nextGeneration opts \<lparr>generations = []\<rparr> rnd k
     = Some (Inr (JFalse, \<lparr>generations = []\<rparr>, k))
   \<and> Generations_addGenome opts \<lparr>generations = []\<rparr> g = (JFalse, \<lparr>generations = []\<rparr>)"
  by (simp add: Generations_nextGeneration_def Generations_addGenome_def)

section \<open>The order of a generation\<close>

lemma addGenome_index_takeWhile:
  "addGenome_index opts g xs i = i + length (takeWhile (\<lambda>x. \<not> beats opts g x) xs)"
  by (induction xs arbitrary: i) (auto simp: beats_def)

lemma addGenome_split:
  "genomes (Generation_addGenome opts this g)
     = takeWhile (\<lambda>x. \<not> beats opts g x) (genomes this) @ g # dropWhile (\<lambda>x. \<not> beats opts g x) (genomes this)"
  unfolding Generation_addGenome_def Let_def addGenome_index_takeWhile
  using takeWhile_eq_take[of "\<lambda>x. \<not> beats opts g x" "genomes this"] dropWhile_eq_drop[of "\<lambda>x. \<not> beats opts g x" "genomes this"]
  by simp

lemma beats_trans: "beats opts a b \<Longrightarrow> \<not> beats opts c b \<Longrightarrow> beats opts a c"
  by (auto simp: beats_def split: if_splits)

lemma not_beats_sym: "beats opts a b \<Longrightarrow> \<not> beats opts b a"
  by (auto simp: beats_def split: if_splits)

lemma dropWhile_all_beaten:
  assumes "in_order opts gs" "x \<in> set (dropWhile (\<lambda>x. \<not> beats opts g x) gs)"
  shows "beats opts g x"
  using assms
proof (induction gs)
  case Nil
  then show ?case by simp
next
  case (Cons y ys)
  show ?case
  proof (cases "beats opts g y")
    case True
    with Cons.prems have "x = y \<or> x \<in> set ys" by simp
    then show ?thesis
    proof
      assume "x = y" with True show ?thesis by simp
    next
      assume "x \<in> set ys"
      with Cons.prems(1) have "\<not> beats opts x y" by (simp add: in_order_def)
      with True show ?thesis by (rule beats_trans)
    qed
  next
    case False
    with Cons show ?thesis by (simp add: in_order_def)
  qed
qed

lemma in_order_insert:
  assumes "in_order opts gs"
  shows "in_order opts (takeWhile (\<lambda>x. \<not> beats opts g x) gs @ g # dropWhile (\<lambda>x. \<not> beats opts g x) gs)"
proof -
  let ?P = "\<lambda>x. \<not> beats opts g x"
  have gs: "gs = takeWhile ?P gs @ dropWhile ?P gs" by simp
  have 1: "sorted_wrt (\<lambda>a b. \<not> beats opts b a) (takeWhile ?P gs @ dropWhile ?P gs)"
    using assms by (simp add: in_order_def)
  have 2: "\<forall>x\<in>set (takeWhile ?P gs). \<not> beats opts g x"
    by (auto dest: set_takeWhileD)
  have 3: "\<forall>x\<in>set (dropWhile ?P gs). \<not> beats opts x g"
    using dropWhile_all_beaten[OF assms] not_beats_sym by blast
  from 1 have a: "sorted_wrt (\<lambda>a b. \<not> beats opts b a) (takeWhile ?P gs)"
    and b: "sorted_wrt (\<lambda>a b. \<not> beats opts b a) (dropWhile ?P gs)"
    and c: "\<forall>x\<in>set (takeWhile ?P gs). \<forall>y\<in>set (dropWhile ?P gs). \<not> beats opts y x"
    unfolding sorted_wrt_append by blast+
  show ?thesis
    unfolding in_order_def sorted_wrt_append sorted_wrt.simps list.set
    using a b c 2 3 by blast
qed

lemma addGenomes_in_order: "in_order opts (genomes (addGenomes opts gs))"
proof (induction gs rule: rev_induct)
  case Nil
  then show ?case by (simp add: addGenomes_def in_order_def)
next
  case (snoc g gs)
  then show ?case
    by (simp add: addGenomes_def addGenome_split in_order_insert)
qed

lemma in_order_desc: "scoreSort opts < 0 \<Longrightarrow> in_order opts gs = sorted_wrt (\<lambda>a b. score a \<ge> score b) gs"
  by (simp add: in_order_def beats_def not_less)

lemma in_order_asc: "\<not> scoreSort opts < 0 \<Longrightarrow> in_order opts gs = sorted_wrt (\<lambda>a b. score a \<le> score b) gs"
  by (simp add: in_order_def beats_def not_less)

lemma in_order_head:
  assumes "in_order opts gs" "x \<in> set gs"
  shows "\<not> beats opts x (gs ! 0)"
proof (cases gs)
  case Nil
  with assms show ?thesis by simp
next
  case (Cons y ys)
  with assms show ?thesis by (auto simp: in_order_def beats_def)
qed

text \<open>
  Claim C4. After any sequence of \<^verbatim>\<open>addGenome\<close> calls on a new generation the genomes
  are sorted by score, non-increasing in descending mode (\<^verbatim>\<open>scoreSort < 0\<close>) and
  non-decreasing otherwise, so the best score is at index 0; and one more \<^verbatim>\<open>addGenome\<close>
  puts the new genome after every genome that is at least as good, the ones of equal
  score among them, and before the strictly worse ones.
\<close>

theorem addGenome_sorted_stable:
  "(scoreSort opts < 0 \<longrightarrow> sorted_wrt (\<lambda>a b. score a \<ge> score b) (genomes (addGenomes opts gs)))
   \<and> (\<not> scoreSort opts < 0 \<longrightarrow> sorted_wrt (\<lambda>a b. score a \<le> score b) (genomes (addGenomes opts gs)))
   \<and> (\<forall>x \<in> set (genomes (addGenomes opts gs)).
         if scoreSort opts < 0 then score x \<le> score (genomes (addGenomes opts gs) ! 0)
         else score (genomes (addGenomes opts gs) ! 0) \<le> score x)
   \<and> (\<exists>pre post.
         genomes (addGenomes opts gs) = pre @ post
         \<and> genomes (Generation_addGenome opts (addGenomes opts gs) g) = pre @ g # post
         \<and> (\<forall>x \<in> set pre. if scoreSort opts < 0 then score g \<le> score x else score x \<le> score g)
         \<and> (\<forall>x \<in> set post. if scoreSort opts < 0 then score x < score g else score g < score x))"
proof -
  let ?gs = "genomes (addGenomes opts gs)"
  let ?P = "\<lambda>x. \<not> beats opts g x"
  have ord: "in_order opts ?gs" by (rule addGenomes_in_order)
  have 1: "scoreSort opts < 0 \<longrightarrow> sorted_wrt (\<lambda>a b. score a \<ge> score b) ?gs"
    using ord in_order_desc by blast
  have 2: "\<not> scoreSort opts < 0 \<longrightarrow> sorted_wrt (\<lambda>a b. score a \<le> score b) ?gs"
    using ord in_order_asc by blast
  have 3: "\<forall>x \<in> set ?gs. if scoreSort opts < 0 then score x \<le> score (?gs ! 0)
             else score (?gs ! 0) \<le> score x"
  proof
    fix x assume "x \<in> set ?gs"
    from in_order_head[OF ord this] show "if scoreSort opts < 0 then score x \<le> score (?gs ! 0)
             else score (?gs ! 0) \<le> score x"
      by (simp add: beats_def not_less split: if_splits)
  qed
  have pre: "\<forall>x \<in> set (takeWhile ?P ?gs). if scoreSort opts < 0 then score g \<le> score x else score x \<le> score g"
  proof
    fix x assume "x \<in> set (takeWhile ?P ?gs)"
    then have "\<not> beats opts g x" by (auto dest: set_takeWhileD)
    then show "if scoreSort opts < 0 then score g \<le> score x else score x \<le> score g"
      by (simp add: beats_def not_less split: if_splits)
  qed
  have post: "\<forall>x \<in> set (dropWhile ?P ?gs). if scoreSort opts < 0 then score x < score g else score g < score x"
  proof
    fix x assume "x \<in> set (dropWhile ?P ?gs)"
    from dropWhile_all_beaten[OF ord this]
    show "if scoreSort opts < 0 then score x < score g else score g < score x"
      by (simp add: beats_def split: if_splits)
  qed
  have 4: "\<exists>pre post.
         ?gs = pre @ post
         \<and> genomes (Generation_addGenome opts (addGenomes opts gs) g) = pre @ g # post
         \<and> (\<forall>x \<in> set pre. if scoreSort opts < 0 then score g \<le> score x else score x \<le> score g)
         \<and> (\<forall>x \<in> set post. if scoreSort opts < 0 then score x < score g else score g < score x)"
    apply (rule exI[of _ "takeWhile ?P ?gs"])
    apply (rule exI[of _ "dropWhile ?P ?gs"])
    using pre post addGenome_split[of opts "addGenomes opts gs" g] by simp
  from 1 2 3 4 show ?thesis by blast
qed

theorem addGenome_sorted_stable_witness:
  "scoreSort opts0 < 0
   \<and> genomes (addGenomes opts0 [gm 10 1, gm 40 2, gm 20 3, gm 5 4])
       = [gm 40 2, gm 20 3, gm 10 1, gm 5 4]
   \<and> sorted_wrt (\<lambda>a b. score a \<ge> score b) (genomes (addGenomes opts0 [gm 10 1, gm 40 2, gm 20 3, gm 5 4]))
   \<and> genomes (Generation_addGenome opts0 (addGenomes opts0 [gm 10 1, gm 40 2, gm 20 3, gm 5 4]) (gm 20 9))
       = [gm 40 2, gm 20 3, gm 20 9, gm 10 1, gm 5 4]"
  using addGenome_sorted_stable[of opts0 "[gm 10 1, gm 40 2, gm 20 3, gm 5 4]" "gm 20 9"]
  by (simp add: addGenomes_def Generation_addGenome_def opts0_def gm_def Genome_def)

section \<open>Breeding keeps the shape of a save\<close>

lemma js_assign_length: "i < length xs \<Longrightarrow> length (js_assign xs i v) = length xs"
  by (simp add: js_assign_def)

lemma crossover_length:
  "i + length ws2 \<le> length dw \<Longrightarrow> length (fst (crossover dw ws2 i rnd k)) = length dw"
proof (induction dw ws2 i rnd k rule: crossover.induct)
  case (1 dw i rnd k)
  then show ?case by simp
next
  case (2 dw ws2 i rnd k)
  then show ?case by simp
next
  case (3 dw v ws2 i rnd k)
  then show ?case by (simp add: js_assign_length)
qed

lemma mutation_length: "length (fst (mutation opts ws rnd k)) = length ws"
  by (induction opts ws rnd k rule: mutation.induct) (auto split: prod.splits)

lemma breed_loop_children:
  assumes "length (weights_save (network g2)) = length (weights_save (network g1))"
  shows "\<exists>cs. fst (breed_loop opts g1 g2 nb dataSet rnd k) = dataSet @ cs \<and> length cs = nb
     \<and> (\<forall>c \<in> set cs. neurons_save (network c) = neurons_save (network g1)
           \<and> length (weights_save (network c)) = length (weights_save (network g1)))"
proof (induction nb arbitrary: dataSet k)
  case 0
  then show ?case by simp
next
  case (Suc nb)
  obtain cw k1 where cw: "crossover (weights_save (network (JSON_genome g1)))
      (weights_save (network g2)) 0 rnd k = (cw, k1)" by (cases "crossover (weights_save (network (JSON_genome g1)))
      (weights_save (network g2)) 0 rnd k")
  obtain mw k2 where mw: "mutation opts cw rnd k1 = (mw, k2)" by (cases "mutation opts cw rnd k1")
  let ?c = "(JSON_genome g1)\<lparr>network := (network (JSON_genome g1))\<lparr>weights_save := mw\<rparr>\<rparr>"
  have len0: "length (weights_save (network (JSON_genome g1))) = length (weights_save (network g1))"
    by (simp add: JSON_genome_def JSON_save_def)
  have "length cw = length (weights_save (network g1))"
    using crossover_length[of 0 "weights_save (network g2)" "weights_save (network (JSON_genome g1))" rnd k]
      assms cw len0 by simp
  moreover have "length mw = length cw"
    using mutation_length[of opts cw rnd k1] mw by simp
  ultimately have c: "neurons_save (network ?c) = neurons_save (network g1)
      \<and> length (weights_save (network ?c)) = length (weights_save (network g1))"
    by (simp add: JSON_genome_def JSON_save_def)
  from Suc.IH[of "dataSet @ [?c]" k2] obtain cs where
    cs: "fst (breed_loop opts g1 g2 nb (dataSet @ [?c]) rnd k2) = (dataSet @ [?c]) @ cs"
      "length cs = nb"
      "\<forall>c \<in> set cs. neurons_save (network c) = neurons_save (network g1)
           \<and> length (weights_save (network c)) = length (weights_save (network g1))"
    by blast
  have "fst (breed_loop opts g1 g2 (Suc nb) dataSet rnd k) = dataSet @ (?c # cs)"
    using cw mw cs(1) by (simp add: Let_def)
  moreover have "length (?c # cs) = Suc nb" using cs(2) by simp
  moreover have "\<forall>c \<in> set (?c # cs). neurons_save (network c) = neurons_save (network g1)
           \<and> length (weights_save (network c)) = length (weights_save (network g1))"
    using c cs(3) by simp
  ultimately show ?case by blast
qed

text \<open>
  Claim C10. When the two parents have flat weight arrays of the same length, \<^verbatim>\<open>breed\<close>
  returns \<open>nbchildren\<close> children, and every child has parent \<open>g1\<close>'s neurons-per-layer
  descriptor and a flat weight array of the parents' length. (The descriptor is cloned
  from \<open>g1\<close>; that \<open>g2\<close> has the same one is not needed.)
\<close>

theorem breed_preserves_topology:
  assumes "length (weights_save (network g2)) = length (weights_save (network g1))"
  shows "length (fst (breed opts g1 g2 nbchildren rnd k)) = nbchildren
    \<and> (\<forall>c \<in> set (fst (breed opts g1 g2 nbchildren rnd k)).
          neurons_save (network c) = neurons_save (network g1)
          \<and> length (weights_save (network c)) = length (weights_save (network g1)))"
  using breed_loop_children[OF assms, of opts nbchildren "[]" rnd k]
  by (auto simp: breed_def)

theorem breed_preserves_topology_witness:
  "length (weights_save (network (gm 5 3))) = length (weights_save (network (gm 10 1)))
   \<and> fst (breed opts0 (gm 10 1) (gm 5 3) 2 (\<lambda>n. real n / 3) 0)
       = [gm 10 3, gm 10 1]
   \<and> neurons_save (network (gm 10 3)) = neurons_save (network (gm 10 1))
   \<and> length (weights_save (network (gm 10 3))) = length (weights_save (network (gm 10 1)))"
  using breed_preserves_topology[of "gm 5 3" "gm 10 1" opts0 2 "\<lambda>n. real n / 3" 0]
  by (simp add: breed_def gm_def Genome_def sv0_def opts0_def JSON_genome_def JSON_save_def
      js_assign_def Let_def numeral_2_eq_2)

section \<open>The round trip through a save\<close>

lemma read_back:
  "map (js_nth (pre @ map Some ws @ post)) [length pre ..< length pre + length ws] = ws"
  by (rule nth_equalityI) (simp_all add: js_nth_def nth_append)

lemma flat_neurons_length:
  "list_all (\<lambda>n. length (weights n) = prev) ns \<Longrightarrow>
   length (concat (map (\<lambda>n. map Some (weights n)) ns)) = length ns * prev"
  by (induction ns) simp_all

lemma saved_neurons_back:
  "list_all (\<lambda>n. length (weights n) = prev) ns \<Longrightarrow>
   saved_neurons (pre @ concat (map (\<lambda>n. map Some (weights n)) ns) @ post) (length ns) prev
     (length pre) = map reset_neuron ns"
proof (induction ns arbitrary: pre)
  case Nil
  then show ?case by simp
next
  case (Cons n ns)
  let ?rest = "concat (map (\<lambda>n. map Some (weights n)) ns)"
  from Cons.prems have len: "length (weights n) = prev"
    and all: "list_all (\<lambda>n. length (weights n) = prev) ns" by simp_all
  have 1: "map (js_nth (pre @ map Some (weights n) @ (?rest @ post)))
             [length pre ..< length pre + prev] = weights n"
    using read_back[of pre "weights n" "?rest @ post"] len by simp
  have 2: "saved_neurons ((pre @ map Some (weights n)) @ ?rest @ post) (length ns) prev
             (length (pre @ map Some (weights n))) = map reset_neuron ns"
    using Cons.IH[OF all] .
  show ?case using 1 2 len by (simp add: reset_neuron_def)
qed

lemma saved_layers_back:
  "wf_layers prev index ls \<Longrightarrow>
   saved_layers
     (pre @ concat (map (\<lambda>l. concat (map (\<lambda>n. map Some (weights n)) (neurons l))) ls) @ post)
     (map (\<lambda>l. length (neurons l)) ls) prev index (length pre) = map reset_layer ls"
proof (induction ls arbitrary: prev index pre)
  case Nil
  then show ?case by simp
next
  case (Cons l ls)
  let ?fl = "concat (map (\<lambda>n. map Some (weights n)) (neurons l))"
  let ?rest = "concat (map (\<lambda>l. concat (map (\<lambda>n. map Some (weights n)) (neurons l))) ls)"
  from Cons.prems have idl: "id_layer l = index"
    and all: "list_all (\<lambda>n. length (weights n) = prev) (neurons l)"
    and wf: "wf_layers (length (neurons l)) (Suc index) ls" by simp_all
  have 1: "saved_neurons (pre @ ?fl @ (?rest @ post)) (length (neurons l)) prev (length pre)
            = map reset_neuron (neurons l)"
    using saved_neurons_back[OF all] .
  have 2: "saved_layers ((pre @ ?fl) @ ?rest @ post) (map (\<lambda>l. length (neurons l)) ls)
             (length (neurons l)) (Suc index) (length (pre @ ?fl)) = map reset_layer ls"
    using Cons.IH[OF wf] .
  have 3: "length (pre @ ?fl) = length pre + length (neurons l) * prev"
    using flat_neurons_length[OF all] by simp
  show ?case using 1 2 3 idl by (simp add: reset_layer_def)
qed

lemma setSave_getSave_layers:
  assumes "wf_network n"
  shows "layers (fst (setSave this (getSave n) rnd k)) = map reset_layer (layers n)"
  using saved_layers_back[of 0 0 "layers n" "[]" "[]"] assms
  by (simp add: setSave_closed getSave_closed wf_network_def)

lemma set_inputs_reset:
  "length ns \<le> length inputs \<Longrightarrow> set_inputs (map reset_neuron ns) inputs = set_inputs ns inputs"
  by (induction ns inputs rule: set_inputs.induct) (simp_all add: reset_neuron_def)

lemma compute_layer_reset: "compute_layer opts prev (reset_layer l) = compute_layer opts prev l"
  by (simp add: compute_layer_def reset_layer_def reset_neuron_def)

lemma compute_loop_reset:
  "compute_loop opts prev (map reset_layer ls) = compute_loop opts prev ls"
  by (induction ls arbitrary: prev) (simp_all add: compute_layer_reset Let_def)

lemma compute_reset:
  assumes "length inputs = length (neurons (hd ls))"
  shows "compute opts \<lparr>layers = map reset_layer ls\<rparr> inputs = compute opts \<lparr>layers = ls\<rparr> inputs"
proof (cases ls)
  case Nil
  then show ?thesis by (simp add: compute_def)
next
  case (Cons l0 ls')
  with assms have "set_inputs (map reset_neuron (neurons l0)) inputs = set_inputs (neurons l0) inputs"
    by (simp add: set_inputs_reset)
  then have "(reset_layer l0)\<lparr>neurons := set_inputs (neurons (reset_layer l0)) inputs\<rparr>
           = l0\<lparr>neurons := set_inputs (neurons l0) inputs\<rparr>"
    by (simp add: reset_layer_def)
  then show ?thesis using Cons
    by (simp add: compute_def Let_def compute_loop_reset)
qed

lemma Layer_populate_shape:
  "\<exists>new. Layer_populate (Layer index) c prev rnd k
            = (\<lparr>id_layer = index, neurons = new\<rparr>, k + c * prev)
         \<and> length new = c \<and> (\<forall>n \<in> set new. fresh prev n)"
  using push_neurons_shape[of c prev "[]" rnd k]
  by (auto simp: Layer_populate_def Layer_def)

lemma wf_layers_snoc:
  "wf_layers prev index (ls @ [l]) =
     (wf_layers prev index ls \<and> id_layer l = index + length ls
      \<and> list_all (\<lambda>n. length (weights n) = (if ls = [] then prev else length (neurons (last ls))))
           (neurons l))"
  by (induction ls arbitrary: prev index) auto

lemma hidden_loop_wf:
  assumes "wf_layers 0 0 ls" "ls \<noteq> []" "length (neurons (last ls)) = prev" "index = length ls"
  shows "\<exists>ls' prev'. fst (hidden_loop hs prev index ls rnd k) = (ls', prev', length ls')
            \<and> wf_layers 0 0 ls' \<and> ls' \<noteq> [] \<and> length (neurons (last ls')) = prev'"
  using assms
proof (induction hs arbitrary: prev index ls k)
  case Nil
  then show ?case by simp
next
  case (Cons h hs)
  obtain new where new: "Layer_populate (Layer index) h prev rnd k
            = (\<lparr>id_layer = index, neurons = new\<rparr>, k + h * prev)"
     "length new = h" "\<forall>n \<in> set new. fresh prev n"
    using Layer_populate_shape by blast
  let ?l = "\<lparr>id_layer = index, neurons = new\<rparr>"
  have wf: "wf_layers 0 0 (ls @ [?l])"
    using Cons.prems new(3) by (simp add: wf_layers_snoc list_all_iff fresh_def)
  from Cons.IH[OF wf, of h "Suc index" "k + h * prev"] Cons.prems new(2)
  show ?case using new(1) by simp
qed

lemma perceptronGeneration_wf:
  "wf_network (fst (perceptronGeneration Network input hidden output rnd k))"
proof -
  obtain new0 where l0: "Layer_populate (Layer 0) input 0 rnd k
            = (\<lparr>id_layer = 0, neurons = new0\<rparr>, k + input * 0)"
     "length new0 = input" "\<forall>n \<in> set new0. fresh 0 n"
    using Layer_populate_shape by blast
  let ?l0 = "\<lparr>id_layer = 0, neurons = new0\<rparr>"
  have wf0: "wf_layers 0 0 [?l0]" using l0(3) by (simp add: list_all_iff fresh_def)
  obtain r k1 where r: "hidden_loop hidden input 1 [?l0] rnd k = (r, k1)"
    by (cases "hidden_loop hidden input 1 [?l0] rnd k")
  from hidden_loop_wf[OF wf0, of input 1 hidden rnd k] l0(2) r
  obtain ls' prev' where ls': "r = (ls', prev', length ls')" "wf_layers 0 0 ls'" "ls' \<noteq> []"
    "length (neurons (last ls')) = prev'" by auto
  obtain newo where lo: "Layer_populate (Layer (length ls')) output prev' rnd k1
            = (\<lparr>id_layer = length ls', neurons = newo\<rparr>, k1 + output * prev')"
     "length newo = output" "\<forall>n \<in> set newo. fresh prev' n"
    using Layer_populate_shape by blast
  have "wf_layers 0 0 (ls' @ [\<lparr>id_layer = length ls', neurons = newo\<rparr>])"
    using ls' lo(3) by (simp add: wf_layers_snoc list_all_iff fresh_def)
  then show ?thesis
    using l0(1) r ls'(1) lo(1) by (simp add: perceptronGeneration_def wf_network_def Network_def)
qed

lemma n0_val:
  "n0 = \<lparr>layers =
    [\<lparr>id_layer = 0,
        neurons = [\<lparr>value_neuron = Num 0, weights = []\<rparr>, \<lparr>value_neuron = Num 0, weights = []\<rparr>]\<rparr>,
     \<lparr>id_layer = 1,
        neurons = [\<lparr>value_neuron = Num 0, weights = [Num (- 1), Num (- (3 / 4))]\<rparr>,
                   \<lparr>value_neuron = Num 0, weights = [Num (- (1 / 2)), Num (- (1 / 4))]\<rparr>]\<rparr>,
     \<lparr>id_layer = 2,
        neurons = [\<lparr>value_neuron = Num 0, weights = [Num 0, Num (1 / 4)]\<rparr>]\<rparr>]\<rparr>"
  by (simp add: n0_def perceptronGeneration_def Layer_populate_def Neuron_populate_def
      randomClamped_def Layer_def Neuron_def Network_def rnd0_def numeral_2_eq_2)

text \<open>
  Claim C3. For a network \<open>n\<close> of the shape that \<^verbatim>\<open>perceptronGeneration\<close> builds (lemma
  \<open>perceptronGeneration_wf\<close>), whatever values its neurons hold, \<^verbatim>\<open>setSave\<close> of
  \<^verbatim>\<open>getSave\<close> of \<open>n\<close> has the neuron counts of \<open>n\<close> layer by layer and the weights of \<open>n\<close>
  neuron by neuron, and \<^verbatim>\<open>compute\<close> gives the same result on it as on \<open>n\<close> for every input
  vector of the length of the input layer.
\<close>

theorem save_round_trip:
  assumes "wf_network n"
  shows "map (\<lambda>l. length (neurons l)) (layers (fst (setSave this (getSave n) rnd k)))
           = map (\<lambda>l. length (neurons l)) (layers n)
    \<and> map (\<lambda>l. map weights (neurons l)) (layers (fst (setSave this (getSave n) rnd k)))
           = map (\<lambda>l. map weights (neurons l)) (layers n)
    \<and> (\<forall>inputs. length inputs = length (neurons (hd (layers n))) \<longrightarrow>
          compute opts (fst (setSave this (getSave n) rnd k)) inputs = compute opts n inputs)"
proof -
  let ?n' = "fst (setSave this (getSave n) rnd k)"
  have L: "layers ?n' = map reset_layer (layers n)"
    using assms by (rule setSave_getSave_layers)
  have 1: "map (\<lambda>l. length (neurons l)) (layers ?n') = map (\<lambda>l. length (neurons l)) (layers n)"
    by (simp add: L reset_layer_def)
  have 2: "map (\<lambda>l. map weights (neurons l)) (layers ?n')
           = map (\<lambda>l. map weights (neurons l)) (layers n)"
    by (simp add: L reset_layer_def reset_neuron_def)
  have n': "?n' = \<lparr>layers = map reset_layer (layers n)\<rparr>"
    using L by (cases ?n') simp
  have n: "n = \<lparr>layers = layers n\<rparr>" by simp
  have 3: "\<forall>inputs. length inputs = length (neurons (hd (layers n))) \<longrightarrow>
          compute opts ?n' inputs = compute opts n inputs"
    using compute_reset[of _ "layers n" opts] n' n by metis
  from 1 2 3 show ?thesis by blast
qed

theorem save_round_trip_witness:
  "wf_network n0
   \<and> length [Num 1, Num 2] = length (neurons (hd (layers n0)))
   \<and> map (\<lambda>l. map weights (neurons l)) (layers (fst (setSave Network (getSave n0) rnd0 6)))
       = [ [ [], [] ], [ [Num (- 1), Num (- (3 / 4))], [Num (- (1 / 2)), Num (- (1 / 4))] ],
          [ [Num 0, Num (1 / 4)] ] ]
   \<and> map_sum id fst (compute opts0 (fst (setSave Network (getSave n0) rnd0 6)) [Num 1, Num 2])
       = Inr [Num (- (1 / 4))]"
proof -
  have wf: "wf_network n0"
    by (simp add: n0_val wf_network_def)
  have len: "length [Num 1, Num 2] = length (neurons (hd (layers n0)))"
    by (simp add: n0_val)
  have out: "map_sum id fst (compute opts0 n0 [Num 1, Num 2]) = Inr [Num (- (1 / 4))]"
    by (simp add: n0_val compute_def compute_layer_def opts0_def js_add_def js_mul_def Let_def)
  have ws: "map (\<lambda>l. map weights (neurons l)) (layers n0)
       = [ [ [], [] ], [ [Num (- 1), Num (- (3 / 4))], [Num (- (1 / 2)), Num (- (1 / 4))] ],
          [ [Num 0, Num (1 / 4)] ] ]"
    by (simp add: n0_val)
  from save_round_trip[OF wf, of Network rnd0 6 opts0] len out ws wf
  show ?thesis by simp
qed

section \<open>Saves and inputs of the wrong length\<close>

lemma saved_neurons_length: "length (saved_neurons sw c prev iw) = c"
  by (induction c arbitrary: iw) simp_all

lemma saved_neurons_flat:
  "concat (map (\<lambda>n. map Some (weights n)) (saved_neurons sw c prev iw))
     = map (\<lambda>i. Some (js_nth sw i)) [iw ..< iw + c * prev]"
proof (induction c arbitrary: iw)
  case 0
  then show ?case by simp
next
  case (Suc c)
  have "[iw ..< iw + Suc c * prev] = [iw ..< iw + prev] @ [iw + prev ..< iw + prev + c * prev]"
    using upt_add_eq_append[of iw "iw + prev" "c * prev"] by (simp add: add.assoc)
  then show ?case using Suc[of "iw + prev"] by simp
qed

lemma saved_layers_counts:
  "map (\<lambda>l. length (neurons l)) (saved_layers sw cs prev index iw) = cs"
  by (induction cs arbitrary: prev index iw) (simp_all add: saved_neurons_length)

lemma saved_layers_flat:
  "concat (map (\<lambda>l. concat (map (\<lambda>n. map Some (weights n)) (neurons l)))
             (saved_layers sw cs prev index iw))
     = map (\<lambda>i. Some (js_nth sw i)) [iw ..< iw + weight_count prev cs]"
proof (induction cs arbitrary: prev index iw)
  case Nil
  then show ?case by simp
next
  case (Cons c cs)
  have "[iw ..< iw + weight_count prev (c # cs)]
      = [iw ..< iw + c * prev] @ [iw + c * prev ..< iw + c * prev + weight_count c cs]"
    using upt_add_eq_append[of iw "iw + c * prev" "weight_count c cs"] by (simp add: add.assoc)
  then show ?case using Cons[of c "Suc index" "iw + c * prev"]
    by (simp add: saved_neurons_flat)
qed

lemma getSave_setSave:
  "getSave (fst (setSave this sv rnd k))
     = \<lparr>neurons_save = neurons_save sv,
        weights_save = map (\<lambda>i. Some (js_nth (weights_save sv) i))
                         [0 ..< weight_count 0 (neurons_save sv)]\<rparr>"
  using saved_layers_flat[of "weights_save sv" "neurons_save sv" 0 0 0]
  by (simp add: setSave_closed getSave_closed saved_layers_counts)

lemma set_inputs_values:
  "map value_neuron (set_inputs ns inputs)
     = map (\<lambda>i. if i < length inputs then inputs ! i else value_neuron (ns ! i)) [0 ..< length ns]"
proof (induction ns inputs rule: set_inputs.induct)
  case (1 inputs)
  then show ?case by simp
next
  case (2 n ns)
  have "map value_neuron (n # ns) ! i = value_neuron ((n # ns) ! i)" if "i < length (n # ns)" for i
    using that by (rule nth_map)
  then show ?case by (intro nth_equalityI) (simp_all del: upt_Suc list.map)
next
  case (3 n ns x inputs)
  have "[0 ..< length (n # ns)] = 0 # map Suc [0 ..< length ns]"
    by (simp add: upt_conv_Cons map_Suc_upt del: upt_Suc)
  then show ?case using 3 by (simp add: comp_def del: upt_Suc)
qed

text \<open>
  Claim C7 says that \<^verbatim>\<open>setSave\<close> reports an error and changes nothing when the flat
  weight array has not the length that the neurons-per-layer descriptor implies, and that
  \<^verbatim>\<open>compute\<close> reports an error on an input vector of the wrong length. The code has no
  such check. On the save with no weight \<^verbatim>\<open>setSave\<close> builds the network with the weight
  \<open>undefined\<close>; on the save with two weights it uses the first and drops the second;
  \<^verbatim>\<open>compute\<close> on the network with two inputs returns an output for three inputs and for
  one.
\<close>

theorem setSave_and_compute_abort_counterexample:
  "length (weights_save sv_short) \<noteq> weight_count 0 (neurons_save sv_short)
   \<and> fst (setSave Network sv_short rnd0 0)
       = \<lparr>layers = [\<lparr>id_layer = 0, neurons = [\<lparr>value_neuron = Num 0, weights = []\<rparr>]\<rparr>,
                    \<lparr>id_layer = 1,
                       neurons = [\<lparr>value_neuron = Num 0, weights = [Undefined]\<rparr>]\<rparr>]\<rparr>
   \<and> length (weights_save sv_long) \<noteq> weight_count 0 (neurons_save sv_long)
   \<and> fst (setSave Network sv_long rnd0 0)
       = \<lparr>layers = [\<lparr>id_layer = 0, neurons = [\<lparr>value_neuron = Num 0, weights = []\<rparr>]\<rparr>,
                    \<lparr>id_layer = 1,
                       neurons = [\<lparr>value_neuron = Num 0, weights = [Num 5]\<rparr>]\<rparr>]\<rparr>
   \<and> length [Num 1, Num 2, Num 3] \<noteq> length (neurons (hd (layers n0)))
   \<and> map_sum id fst (compute opts0 n0 [Num 1, Num 2, Num 3]) = Inr [Num (- (1 / 4))]
   \<and> length [Num 1] \<noteq> length (neurons (hd (layers n0)))
   \<and> map_sum id fst (compute opts0 n0 [Num 1]) = Inr [Num (- (1 / 8))]"
proof -
  have 1: "length (weights_save sv_short) \<noteq> weight_count 0 (neurons_save sv_short)"
    by (simp add: sv_short_def)
  have 2: "fst (setSave Network sv_short rnd0 0)
       = \<lparr>layers = [\<lparr>id_layer = 0, neurons = [\<lparr>value_neuron = Num 0, weights = []\<rparr>]\<rparr>,
                    \<lparr>id_layer = 1,
                       neurons = [\<lparr>value_neuron = Num 0, weights = [Undefined]\<rparr>]\<rparr>]\<rparr>"
    by (simp add: setSave_closed sv_short_def Network_def js_nth_def)
  have 3: "length (weights_save sv_long) \<noteq> weight_count 0 (neurons_save sv_long)"
    by (simp add: sv_long_def)
  have 4: "fst (setSave Network sv_long rnd0 0)
       = \<lparr>layers = [\<lparr>id_layer = 0, neurons = [\<lparr>value_neuron = Num 0, weights = []\<rparr>]\<rparr>,
                    \<lparr>id_layer = 1,
                       neurons = [\<lparr>value_neuron = Num 0, weights = [Num 5]\<rparr>]\<rparr>]\<rparr>"
    by (simp add: setSave_closed sv_long_def Network_def js_nth_def)
  have 5: "length [Num 1, Num 2, Num 3] \<noteq> length (neurons (hd (layers n0)))"
    and 7: "length [Num 1] \<noteq> length (neurons (hd (layers n0)))"
    by (simp_all add: n0_val)
  have 6: "map_sum id fst (compute opts0 n0 [Num 1, Num 2, Num 3]) = Inr [Num (- (1 / 4))]"
    by (simp add: n0_val compute_def compute_layer_def opts0_def js_add_def js_mul_def Let_def)
  have 8: "map_sum id fst (compute opts0 n0 [Num 1]) = Inr [Num (- (1 / 8))]"
    by (simp add: n0_val compute_def compute_layer_def opts0_def js_add_def js_mul_def Let_def)
  from 1 2 3 4 5 6 7 8 show ?thesis by blast
qed

text \<open>
  Claim C7 as amended. \<^verbatim>\<open>setSave\<close> reports no error on any save: the network it builds
  has the neurons-per-layer descriptor of the save, and its weights are the reads of
  \<^verbatim>\<open>save.weights\<close> at the indices \<open>0, 1, ...\<close> up to the number of weights the descriptor
  implies, \<open>undefined\<close> where the flat array is too short; a surplus is never read.
  \<^verbatim>\<open>compute\<close> on a network with at least one layer returns an output for an input
  vector of any length: input neuron \<open>i\<close> takes \<^verbatim>\<open>inputs[i]\<close> where there is one and keeps
  its value otherwise, and inputs beyond the input layer are ignored.
\<close>

theorem setSave_and_compute_report_nothing:
  "getSave (fst (setSave this sv rnd k))
     = \<lparr>neurons_save = neurons_save sv,
        weights_save = map (\<lambda>i. Some (js_nth (weights_save sv) i))
                         [0 ..< weight_count 0 (neurons_save sv)]\<rparr>
   \<and> (layers n \<noteq> [] \<longrightarrow>
        (\<exists>out n'. compute opts n inputs = Inr (out, n')
           \<and> map value_neuron (neurons (hd (layers n')))
               = map (\<lambda>i. if i < length inputs then inputs ! i
                           else value_neuron (neurons (hd (layers n)) ! i))
                   [0 ..< length (neurons (hd (layers n)))]))"
proof -
  have "layers n \<noteq> [] \<longrightarrow>
        (\<exists>out n'. compute opts n inputs = Inr (out, n')
           \<and> map value_neuron (neurons (hd (layers n')))
               = map (\<lambda>i. if i < length inputs then inputs ! i
                           else value_neuron (neurons (hd (layers n)) ! i))
                   [0 ..< length (neurons (hd (layers n)))])"
  proof
    assume "layers n \<noteq> []"
    then obtain l0 ls where ls: "layers n = l0 # ls" by (cases "layers n") auto
    show "\<exists>out n'. compute opts n inputs = Inr (out, n')
           \<and> map value_neuron (neurons (hd (layers n')))
               = map (\<lambda>i. if i < length inputs then inputs ! i
                           else value_neuron (neurons (hd (layers n)) ! i))
                   [0 ..< length (neurons (hd (layers n)))]"
      using ls set_inputs_values[of "neurons l0" inputs]
      by (simp add: compute_def Let_def)
  qed
  then show ?thesis using getSave_setSave by blast
qed

theorem setSave_and_compute_report_nothing_witness:
  "layers n0 \<noteq> []
   \<and> getSave (fst (setSave Network sv_short rnd0 0))
       = \<lparr>neurons_save = [1, 1], weights_save = [Some Undefined]\<rparr>
   \<and> (\<exists>out n'. compute opts0 n0 [Num 1] = Inr (out, n')
          \<and> map value_neuron (neurons (hd (layers n'))) = [Num 1, Num 0])"
  using setSave_and_compute_report_nothing[of Network sv_short rnd0 0 n0 opts0 "[Num 1]"]
  by (simp add: n0_val sv_short_def js_nth_def numeral_2_eq_2)

section \<open>The size of the next population\<close>

text \<open>
  Where the population is conserved: on a generation of three genomes or more, when the
  elite exists and the elite and the random networks leave at least one slot for a child,
  \<^verbatim>\<open>generateNextGeneration\<close> returns, and it returns exactly \<^verbatim>\<open>population\<close> networks
  (lemma \<open>generateNextGeneration_fills_population\<close>).
\<close>

lemma elitism_loop_pushes:
  assumes "i + n \<le> length gs" "int (length nexts + n) \<le> population opts"
  shows "elitism_loop opts gs n i nexts
           = Inr (nexts @ map (\<lambda>g. JSON_save (network g)) (take n (drop i gs)))"
  using assms
proof (induction n arbitrary: i nexts)
  case 0
  then show ?case by simp
next
  case (Suc n)
  from Suc.prems have i: "i < length gs" and lt: "int (length nexts) < population opts" by simp_all
  have "take (Suc n) (drop i gs) = gs ! i # take n (drop (Suc i) gs)"
    using i by (simp add: take_Suc_conv_app_nth Cons_nth_drop_Suc[symmetric])
  then show ?case
    using Suc.IH[of "Suc i" "nexts @ [JSON_save (network (gs ! i))]"] Suc.prems i lt by simp
qed

lemma randomize_length: "length (fst (randomize ws rnd k)) = length ws"
  by (induction ws rnd k rule: randomize.induct) (auto split: prod.splits)

lemma random_loop_pushes:
  assumes "gs \<noteq> []" "int (length nexts + n) \<le> population opts"
  shows "\<exists>new k'. random_loop opts gs n nexts rnd k = Inr (nexts @ new, k') \<and> length new = n"
  using assms
proof (induction n arbitrary: nexts k)
  case 0
  then show ?case by simp
next
  case (Suc n)
  from Suc.prems obtain g0 gs' where gs: "gs = g0 # gs'" by (cases gs) auto
  from Suc.prems have lt: "int (length nexts) < population opts" by simp
  obtain ws k1 where r: "randomize (weights_save (JSON_save (network g0))) rnd k = (ws, k1)"
    by (cases "randomize (weights_save (JSON_save (network g0))) rnd k")
  let ?s = "(JSON_save (network g0))\<lparr>weights_save := ws\<rparr>"
  from Suc.IH[of "nexts @ [?s]" k1] Suc.prems obtain new k' where
    new: "random_loop opts gs n (nexts @ [?s]) rnd k1 = Inr ((nexts @ [?s]) @ new, k')"
      "length new = n" by auto
  have "random_loop opts gs (Suc n) nexts rnd k = Inr (nexts @ (?s # new), k')"
    using gs r lt new(1) by (simp add: Let_def)
  then show ?case using new(2) by (intro exI[of _ "?s # new"] exI[of _ k']) simp
qed

lemma breed_loop_length:
  "length (fst (breed_loop opts g1 g2 nb dataSet rnd k)) = length dataSet + nb"
  by (induction nb arbitrary: dataSet k) (auto simp: Let_def split: prod.splits)

lemma breed_length: "length (fst (breed opts g1 g2 nb rnd k)) = nb"
  by (simp add: breed_def breed_loop_length)

lemma push_children_done:
  assumes "int (length nexts) < population opts" "push_children opts cs nexts = (nexts', True)"
  shows "int (length nexts') = population opts"
  using assms
proof (induction cs arbitrary: nexts)
  case Nil
  then show ?case by simp
next
  case (Cons c cs)
  show ?case
  proof (cases "int (length (nexts @ [network c])) \<ge> population opts")
    case True
    with Cons.prems show ?thesis by auto
  next
    case False
    then have "int (length (nexts @ [network c])) < population opts" by simp
    moreover from False Cons.prems(2)
    have "push_children opts cs (nexts @ [network c]) = (nexts', True)" by simp
    ultimately show ?thesis by (rule Cons.IH)
  qed
qed

lemma push_children_more:
  assumes "push_children opts cs nexts = (nexts', False)"
  shows "length nexts' = length nexts + length cs
         \<and> (cs \<noteq> [] \<longrightarrow> int (length nexts') < population opts)"
  using assms
proof (induction cs arbitrary: nexts)
  case Nil
  then show ?case by simp
next
  case (Cons c cs)
  from Cons.prems have no: "\<not> int (length (nexts @ [network c])) \<ge> population opts"
    by (auto split: if_splits)
  with Cons.prems have p: "push_children opts cs (nexts @ [network c]) = (nexts', False)"
    by simp
  from Cons.IH[OF p] have 1: "length nexts' = length nexts + length (c # cs)"
    and 2: "cs \<noteq> [] \<longrightarrow> int (length nexts') < population opts" by auto
  have "int (length nexts') < population opts"
  proof (cases cs)
    case Nil
    with p no show ?thesis by simp
  next
    case (Cons a list)
    with 2 show ?thesis by simp
  qed
  with 1 show ?case by simp
qed

lemma breeding_fills:
  assumes L: "3 \<le> length gs"
  shows "i \<le> max_g \<Longrightarrow> max_g + 2 \<le> length gs \<Longrightarrow> int (length nexts) < population opts \<Longrightarrow>
         \<exists>nexts' k'. breeding opts gs max_g i nexts rnd k = Some (Inr (nexts', k'))
           \<and> int (length nexts') = population opts"
proof (induction "nat (population opts - int (length nexts))" arbitrary: max_g i nexts k
    rule: less_induct)
  case less
  let ?nbc = "nat (if nbChild opts > 0 then nbChild opts else 1)"
  have nbc: "0 < ?nbc" by simp
  have breed_now: "\<exists>nexts' k'. breeding opts gs m j nexts rnd k0 = Some (Inr (nexts', k'))
           \<and> int (length nexts') = population opts"
    if j: "j < m" and m: "m + 2 \<le> length gs" for m j k0
  proof -
    obtain children k1 where b: "breed opts (gs ! j) (gs ! m) ?nbc rnd k0 = (children, k1)"
      by (cases "breed opts (gs ! j) (gs ! m) ?nbc rnd k0")
    then have len: "length children = ?nbc" using breed_length[of opts "gs ! j" "gs ! m" ?nbc rnd k0]
      by simp
    obtain nexts1 d where p: "push_children opts children nexts = (nexts1, d)"
      by (cases "push_children opts children nexts")
    have unf: "breeding opts gs m j nexts rnd k0
       = (if d then Some (Inr (nexts1, k1)) else breeding opts gs m (Suc j) nexts1 rnd k1)"
      using j m b p by (subst breeding.simps) simp
    show ?thesis
    proof (cases d)
      case True
      with p push_children_done[OF less.prems(3)] have "int (length nexts1) = population opts"
        by simp
      with unf True show ?thesis by simp
    next
      case False
      with p push_children_more[of opts children nexts nexts1] len nbc
      have l1: "length nexts1 = length nexts + ?nbc" "int (length nexts1) < population opts"
        by auto
      then have "nat (population opts - int (length nexts1)) < nat (population opts - int (length nexts))"
        using nbc by linarith
      from less.hyps[OF this, of "Suc j" m k1] j m l1(2) unf False show ?thesis by simp
    qed
  qed
  show ?case
  proof (cases "i < max_g")
    case True
    from breed_now[OF True less.prems(2)] show ?thesis .
  next
    case False
    show ?thesis
    proof (cases "int (Suc max_g) \<ge> int (length gs) - 1")
      case up: False
      then have m: "Suc max_g + 2 \<le> length gs" by simp
      have "breeding opts gs max_g i nexts rnd k = breeding opts gs (Suc max_g) 0 nexts rnd k"
        using False up by (subst breeding.simps) simp
      with breed_now[of 0 "Suc max_g" k] m show ?thesis by simp
    next
      case wrap: True
      have 1: "breeding opts gs max_g i nexts rnd k = breeding opts gs 0 0 nexts rnd k"
        using False wrap by (subst breeding.simps) simp
      have 2: "breeding opts gs 0 0 nexts rnd k = breeding opts gs (Suc 0) 0 nexts rnd k"
        using L by (subst breeding.simps) simp
      from breed_now[of 0 "Suc 0" k] L 1 2 show ?thesis by simp
    qed
  qed
qed

lemma generateNextGeneration_fills_population:
  assumes "3 \<le> length (genomes this)"
    and "nat (Math_round (elitism opts * real_of_int (population opts))) \<le> length (genomes this)"
    and "int (nat (Math_round (elitism opts * real_of_int (population opts)))
              + nat (Math_round (randomBehaviour opts * real_of_int (population opts))))
           < population opts"
  shows "\<exists>nexts k'. generateNextGeneration opts this rnd k = Some (Inr (nexts, k'))
           \<and> int (length nexts) = population opts"
proof -
  let ?ce = "nat (Math_round (elitism opts * real_of_int (population opts)))"
  let ?cr = "nat (Math_round (randomBehaviour opts * real_of_int (population opts)))"
  let ?el = "map (\<lambda>g. JSON_save (network g)) (take ?ce (drop 0 (genomes this)))"
  have "int ?ce \<le> population opts" using assms(3) by linarith
  then have e: "elitism_loop opts (genomes this) ?ce 0 [] = Inr ([] @ ?el)"
    using assms(2) by (intro elitism_loop_pushes) simp_all
  have le: "length ?el = ?ce" using assms(2) by simp
  have ne: "genomes this \<noteq> []" using assms(1) by auto
  from random_loop_pushes[OF ne, of ?el ?cr opts rnd k] le assms(3)
  obtain new k1 where r: "random_loop opts (genomes this) ?cr ?el rnd k = Inr (?el @ new, k1)"
    "length new = ?cr" by auto
  have lt: "int (length (?el @ new)) < population opts" using le r(2) assms(3) by simp
  from breeding_fills[OF assms(1), of 0 0 "?el @ new" opts rnd k1] assms(1) lt
  obtain nexts k' where "breeding opts (genomes this) 0 0 (?el @ new) rnd k1 = Some (Inr (nexts, k'))"
    "int (length nexts) = population opts" by auto
  then show ?thesis using e r(1) by (simp add: generateNextGeneration_def)
qed

lemma opts1_stage1:
  "elitism_loop opts1 (genomes gen4)
     (nat (Math_round (elitism opts1 * real_of_int (population opts1)))) 0 [] = Inr [sv0 2, sv0 3]"
  by (simp add: gen4_val opts1_def opts0_def Math_round_def numeral_2_eq_2 gm_def Genome_def
      JSON_save_def sv0_def)

lemma opts1_stage2:
  "random_loop opts1 (genomes gen4)
     (nat (Math_round (randomBehaviour opts1 * real_of_int (population opts1))))
     [sv0 2, sv0 3] rnd0 0
   = Inr ([sv0 2, sv0 3, sv0 (- 1), sv0 (- (3 / 4))], 2)"
  by (simp add: gen4_val opts1_def opts0_def Math_round_def numeral_2_eq_2 gm_def Genome_def
      JSON_save_def sv0_def randomClamped_def rnd0_def Let_def)

lemma opts1_stage3:
  "breeding opts1 (genomes gen4) 0 0 [sv0 2, sv0 3, sv0 (- 1), sv0 (- (3 / 4))] rnd0 2
   = Some (Inr ([sv0 2, sv0 3, sv0 (- 1), sv0 (- (3 / 4)), sv0 3], 4))"
  apply (subst breeding.simps)
  apply (simp add: gen4_val)
  apply (subst breeding.simps)
  apply (simp add: gen4_val opts1_def opts0_def breed_def gm_def Genome_def JSON_genome_def
      JSON_save_def sv0_def rnd0_def Let_def js_assign_def)
  done

text \<open>
  Claim C1 says that \<^verbatim>\<open>generateNextGeneration\<close> returns exactly \<^verbatim>\<open>population\<close> networks
  whenever the two rates sum to at most 1. With a population of 4, \<^verbatim>\<open>elitism\<close> 0.5 and
  \<^verbatim>\<open>randomBehaviour\<close> 0.5 on a generation of four scored genomes, the first two stages
  fill the population; the breeding loop then pushes a child before it looks at the
  length, and the function returns 5 networks.
\<close>

theorem generateNextGeneration_exceeds_population:
  "elitism opts1 + randomBehaviour opts1 \<le> 1
   \<and> int (length (genomes gen4)) = population opts1
   \<and> generateNextGeneration opts1 gen4 rnd0 0
       = Some (Inr ([sv0 2, sv0 3, sv0 (- 1), sv0 (- (3 / 4)), sv0 3], 4))
   \<and> int (length [sv0 2, sv0 3, sv0 (- 1), sv0 (- (3 / 4)), sv0 3]) = population opts1 + 1"
proof -
  have "generateNextGeneration opts1 gen4 rnd0 0
       = Some (Inr ([sv0 2, sv0 3, sv0 (- 1), sv0 (- (3 / 4)), sv0 3], 4))"
    unfolding generateNextGeneration_def by (simp add: opts1_stage1 opts1_stage2 opts1_stage3)
  moreover have "elitism opts1 + randomBehaviour opts1 \<le> 1"
    "int (length (genomes gen4)) = population opts1"
    "int (length [sv0 2, sv0 3, sv0 (- 1), sv0 (- (3 / 4)), sv0 3]) = population opts1 + 1"
    by (simp_all add: opts1_def opts0_def gen4_val)
  ultimately show ?thesis by blast
qed

section \<open>Generations of one or two genomes\<close>

lemma breeding_Some_large:
  assumes r: "breeding opts gs max_g i nexts rnd k = Some y"
  shows "\<not> (length gs \<le> 2 \<and> max_g = 0)"
proof (rule breeding.raw_induct
    [where P = "\<lambda>opts gs max_g i nexts rnd k y. \<not> (length gs \<le> 2 \<and> max_g = 0)", OF _ r],
    goal_cases)
  case (1 b opts gs max_g i nexts rnd k y)
  show ?case
  proof
    assume a: "length gs \<le> 2 \<and> max_g = 0"
    then have "int (length gs) - 1 \<le> int (Suc max_g)" by simp
    with a 1(2) have "b opts gs 0 0 nexts rnd k = Some y" by simp
    from 1(1)[OF this] a show False by simp
  qed
qed

lemma breeding_never_returns:
  assumes "length gs \<le> 2"
  shows "breeding opts gs 0 i nexts rnd k = None"
proof (cases "breeding opts gs 0 i nexts rnd k")
  case None
  then show ?thesis .
next
  case (Some y)
  from breeding_Some_large[OF this] assms show ?thesis by simp
qed

lemma small_generation_never_returns:
  assumes "length (genomes this) \<le> 2"
  shows "generateNextGeneration opts this rnd k \<noteq> Some (Inr r)"
  using assms
  by (auto simp: generateNextGeneration_def breeding_never_returns split: sum.splits)

text \<open>
  Claim C2 says that \<^verbatim>\<open>generateNextGeneration\<close> terminates on every generation that is
  not empty. On a generation of one genome (and of two, lemma
  \<open>small_generation_never_returns\<close>) \<open>max\<close> is reset to 0 each time it reaches 1, the
  inner loop never runs, and the function never returns.
\<close>

theorem generateNextGeneration_single_genome_diverges:
  "generateNextGeneration opts0 \<lparr>genomes = [gm 10 1]\<rparr> rnd0 0 = None"
  by (simp add: generateNextGeneration_def breeding_never_returns opts0_def Math_round_def
      gm_def Genome_def JSON_save_def sv0_def randomClamped_def rnd0_def Let_def)

section \<open>The length of the history\<close>

lemma remove_older_bound:
  assumes "0 \<le> historic opts"
  shows "int (length (generations (remove_older opts gens))) \<le> historic opts + 1"
  using assms by (auto simp: remove_older_def)

lemma networkScore_history_length:
  "length (generations (generations_brain (BirdBrain_networkScore opts this nw sc)))
     = length (generations (generations_brain this))"
  by (cases "generations (generations_brain this)")
    (simp_all add: BirdBrain_networkScore_def Generations_addGenome_def)

lemma opts0_nextGeneration:
  "BirdBrain_nextGeneration opts0 brain1 rnd0 0
     = Some (Inr ([nn0 2, nn0 (- 1), nn0 3, nn0 1],
                  \<lparr>generations_brain = \<lparr>generations = [\<lparr>genomes = []\<rparr>]\<rparr>\<rparr>, 9))"
proof -
  have h: "historic opts0 = 0" "lowHistoric opts0 = False" by (simp_all add: opts0_def)
  show ?thesis
    by (simp add: BirdBrain_nextGeneration_def Generations_nextGeneration_def brain1_def
        opts0_generateNextGeneration setSave_sv0 remove_older_def h)
qed

text \<open>
  Where the bound holds. With \<^verbatim>\<open>historic\<close> a number of generations \<open>d \<ge> 0\<close> (\<open>-1\<close> stands
  for "keep all"), every call of \<^verbatim>\<open>BirdBrain.nextGeneration\<close> that returns leaves at most
  \<open>d + 1\<close> generations, whatever the history was before (lemma \<open>history_retention_bound\<close>);
  and without \<^verbatim>\<open>lowHistoric\<close> a call that throws leaves the history as it was, so the
  bound is kept by every call that comes to an end (lemma
  \<open>history_bound_without_lowHistoric\<close>). Reporting scores does not change the length (lemma
  \<open>networkScore_history_length\<close>).
\<close>

lemma history_retention_bound:
  assumes "0 \<le> historic opts"
    and "BirdBrain_nextGeneration opts this rnd k = Some (Inr (nns, this', k'))"
  shows "int (length (generations (generations_brain this'))) \<le> historic opts + 1"
proof -
  from assms(2) obtain gens where "this' = this\<lparr>generations_brain := remove_older opts gens\<rparr>"
    by (auto simp: BirdBrain_nextGeneration_def split: option.splits sum.splits prod.splits if_splits)
  with remove_older_bound[OF assms(1)] show ?thesis by simp
qed

lemma opts0_history_bound:
  "0 \<le> historic opts0
   \<and> BirdBrain_nextGeneration opts0 brain1 rnd0 0
       = Some (Inr ([nn0 2, nn0 (- 1), nn0 3, nn0 1],
                    \<lparr>generations_brain = \<lparr>generations = [\<lparr>genomes = []\<rparr>]\<rparr>\<rparr>, 9))
   \<and> int (length (generations (generations_brain
         \<lparr>generations_brain = \<lparr>generations = [\<lparr>genomes = []\<rparr>]\<rparr>\<rparr>))) \<le> historic opts0 + 1"
proof -
  have h: "0 \<le> historic opts0" by (simp add: opts0_def)
  from history_retention_bound[OF h opts0_nextGeneration] h opts0_nextGeneration
  show ?thesis by blast
qed

lemma history_bound_without_lowHistoric:
  assumes "0 \<le> historic opts" "\<not> lowHistoric opts"
    and "int (length (generations (generations_brain this))) \<le> historic opts + 1"
    and "BirdBrain_nextGeneration opts this rnd k = Some r"
  shows "int (length (generations (generations_brain
           (case r of Inl (e, this', k') \<Rightarrow> this' | Inr (nns, this', k') \<Rightarrow> this'))))
         \<le> historic opts + 1"
proof (cases r)
  case (Inl a)
  obtain e this' k' where a: "a = (e, this', k')" by (cases a)
  from assms(4) assms(2) Inl a have "this' = this"
    by (auto simp: BirdBrain_nextGeneration_def split: option.splits sum.splits prod.splits if_splits)
  with assms(3) Inl a show ?thesis by simp
next
  case (Inr b)
  obtain nns this' k' where b: "b = (nns, this', k')" by (cases b)
  from history_retention_bound[OF assms(1), of this rnd k nns this' k'] assms(4) Inr b
  show ?thesis by simp
qed

lemma optsL_nextGeneration:
  "BirdBrain_nextGeneration optsL brain1 rnd0 0
     = Some (Inl (TypeError,
                  \<lparr>generations_brain = \<lparr>generations = [gen4, \<lparr>genomes = []\<rparr>]\<rparr>\<rparr>, 9))"
proof -
  have h: "lowHistoric optsL" by (simp add: optsL_def)
  show ?thesis
    by (simp add: BirdBrain_nextGeneration_def Generations_nextGeneration_def brain1_def
        optsL_generateNextGeneration setSave_sv0 h)
qed

text \<open>
  Claim C6 says that for every finite \<^verbatim>\<open>historic\<close> \<open>d\<close> the history holds at most \<open>d + 1\<close>
  generations after any number of calls of \<^verbatim>\<open>nextGeneration\<close>. With \<^verbatim>\<open>lowHistoric\<close> set,
  \<^verbatim>\<open>historic\<close> 0 and a history of one generation of four scored genomes, which meets the
  bound, the call pushes the new generation, throws at the read of \<^verbatim>\<open>self\<close> before the
  \<^verbatim>\<open>splice\<close>, and leaves two generations in the history. It is the slip of claim C5.
\<close>

theorem lowHistoric_history_exceeds_bound:
  "historic optsL = 0
   \<and> lowHistoric optsL
   \<and> int (length (generations (generations_brain brain1))) \<le> historic optsL + 1
   \<and> BirdBrain_nextGeneration optsL brain1 rnd0 0
       = Some (Inl (TypeError,
                    \<lparr>generations_brain = \<lparr>generations = [gen4, \<lparr>genomes = []\<rparr>]\<rparr>\<rparr>, 9))
   \<and> \<not> int (length (generations (generations_brain
             \<lparr>generations_brain = \<lparr>generations = [gen4, \<lparr>genomes = []\<rparr>]\<rparr>\<rparr>)))
         \<le> historic optsL + 1"
proof -
  have h: "historic optsL = 0" "lowHistoric optsL" by (simp_all add: optsL_def opts0_def)
  have b: "int (length (generations (generations_brain brain1))) \<le> historic optsL + 1"
    by (simp add: brain1_def h)
  have a: "\<not> int (length (generations (generations_brain
             \<lparr>generations_brain = \<lparr>generations = [gen4, \<lparr>genomes = []\<rparr>]\<rparr>\<rparr>)))
         \<le> historic optsL + 1"
    by (simp add: h)
  from h b optsL_nextGeneration a show ?thesis by blast
qed

section \<open>Score-only retention\<close>

lemma lowHistoric_never_returns:
  assumes "lowHistoric opts" "generations (generations_brain this) \<noteq> []"
  shows "BirdBrain_nextGeneration opts this rnd k \<noteq> Some (Inr r)"
proof -
  from assms(2) have "Suc 0 \<le> length (generations (generations_brain this))"
    by (cases "generations (generations_brain this)") simp_all
  with assms show ?thesis
    by (auto simp: BirdBrain_nextGeneration_def Generations_nextGeneration_def
        split: option.splits sum.splits prod.splits)
qed

text \<open>
  Claim C5 says that with \<^verbatim>\<open>lowHistoric\<close> set and two generations or more,
  \<^verbatim>\<open>nextGeneration\<close> deletes the networks of the generation at index \<open>length - 2\<close>. The
  code computes that index from \<^verbatim>\<open>self.generations.generations.length\<close>, not from
  \<^verbatim>\<open>this\<close>: the call throws after the new generation is pushed, the generation at
  index \<open>length - 2\<close> keeps every network, and the history is not trimmed (lemma
  \<open>lowHistoric_never_returns\<close>: with \<^verbatim>\<open>lowHistoric\<close> set, no call on a history that is
  not empty returns).
\<close>

theorem lowHistoric_nextGeneration_throws:
  "lowHistoric optsL
   \<and> length (generations (generations_brain brain2)) = 2
   \<and> BirdBrain_nextGeneration optsL brain2 rnd0 0
       = Some (Inl (TypeError,
                    \<lparr>generations_brain =
                       \<lparr>generations = [\<lparr>genomes = [gm 7 5]\<rparr>, gen4, \<lparr>genomes = []\<rparr>]\<rparr>\<rparr>, 9))
   \<and> map network (genomes gen4) = [sv0 2, sv0 3, sv0 1, sv0 4]"
proof -
  have h: "lowHistoric optsL" by (simp add: optsL_def)
  have l: "length (generations (generations_brain brain2)) = 2" by (simp add: brain2_def)
  have r: "BirdBrain_nextGeneration optsL brain2 rnd0 0
       = Some (Inl (TypeError,
                    \<lparr>generations_brain =
                       \<lparr>generations = [\<lparr>genomes = [gm 7 5]\<rparr>, gen4, \<lparr>genomes = []\<rparr>]\<rparr>\<rparr>, 9))"
    by (simp add: BirdBrain_nextGeneration_def Generations_nextGeneration_def brain2_def
        optsL_generateNextGeneration setSave_sv0 h)
  have n: "map network (genomes gen4) = [sv0 2, sv0 3, sv0 1, sv0 4]"
    by (simp add: gen4_val gm_def Genome_def)
  from h l r n show ?thesis by blast
qed

section \<open>Mutation\<close>

text \<open>
  What holds of \<^verbatim>\<open>breed\<close> on parents whose weights are numbers, in arrays of the same
  length: every weight of a child is a crossed value (parent A's or parent B's weight at
  that index), mutated or not; a mutated weight differs from the crossed value by at most
  \<^verbatim>\<open>mutationRange\<close> (lemma \<open>breed_weights_bounded\<close>, for draws in \<open>[0, 1)\<close> and a range
  that is not negative); and when no
  draw is at or below \<^verbatim>\<open>mutationRate\<close>, no weight is mutated (lemma
  \<open>breed_weights_unmutated\<close>).
\<close>

lemma nums_simps [simp]: "nums [] = []" "nums (x # xs) = Some (Num x) # nums xs"
  "length (nums xs) = length xs" "nums (xs @ ys) = nums xs @ nums ys"
  by (simp_all add: nums_def)

lemma JSON_nums: "map JSON_slot (nums xs) = nums xs"
  by (induction xs) simp_all

lemma js_assign_middle: "js_assign (nums pre @ nums (r # rest)) (length pre) (Num v) = nums (pre @ [v]) @ nums rest"
  by (simp add: js_assign_def list_update_append)

lemma crossover_nums:
  assumes "length rest = length bs"
  shows "\<exists>cs. fst (crossover (nums pre @ nums rest) (nums bs) (length pre) rnd k) = nums pre @ nums cs
           \<and> list_all2 (\<lambda>c (a, b). c = a \<or> c = b) cs (zip rest bs)"
  using assms
proof (induction bs arbitrary: pre rest k)
  case Nil
  then show ?case by simp
next
  case (Cons b bs)
  then obtain r rest0 where rest: "rest = r # rest0" "length rest0 = length bs"
    by (cases rest) auto
  let ?x = "if rnd k \<le> 1 / 2 then b else r"
  have dw: "(if rnd k \<le> 1 / 2 then js_assign (nums pre @ nums rest) (length pre) (Num b)
            else nums pre @ nums rest) = nums (pre @ [?x]) @ nums rest0"
    using js_assign_middle[of pre r rest0 b] rest(1) by simp
  from Cons.IH[OF rest(2), of "pre @ [?x]" "Suc k"] obtain cs where
    cs: "fst (crossover (nums (pre @ [?x]) @ nums rest0) (nums bs) (length (pre @ [?x])) rnd (Suc k))
           = nums (pre @ [?x]) @ nums cs"
      "list_all2 (\<lambda>c (a, b). c = a \<or> c = b) cs (zip rest0 bs)" by blast
  have "fst (crossover (nums pre @ nums rest) (nums (b # bs)) (length pre) rnd k)
          = nums pre @ nums (?x # cs)"
    using cs(1) dw by simp
  moreover have "list_all2 (\<lambda>c (a, b). c = a \<or> c = b) (?x # cs) (zip rest (b # bs))"
    using cs(2) rest(1) by simp
  ultimately show ?case by blast
qed

lemma mutation_nums:
  assumes "0 \<le> mutationRange opts" "\<forall>n. 0 \<le> rnd n \<and> rnd n < 1"
  shows "\<exists>ms. fst (mutation opts (nums cs) rnd k) = nums ms
           \<and> list_all2 (\<lambda>m c. m = c \<or> \<bar>m - c\<bar> \<le> mutationRange opts) ms cs"
proof (induction cs arbitrary: k)
  case Nil
  then show ?case by simp
next
  case (Cons c cs)
  let ?d = "rnd (Suc k) * mutationRange opts * 2 - mutationRange opts"
  have d: "\<bar>?d\<bar> \<le> mutationRange opts"
  proof -
    have r: "0 \<le> rnd (Suc k)" "rnd (Suc k) < 1" using assms(2) by auto
    have "rnd (Suc k) * mutationRange opts \<le> 1 * mutationRange opts"
      using r assms(1) by (intro mult_right_mono) simp_all
    moreover have "0 \<le> rnd (Suc k) * mutationRange opts" using r assms(1) by simp
    ultimately show ?thesis by (simp add: abs_le_iff mult.commute)
  qed
  show ?case
  proof (cases "rnd k \<le> mutationRate opts")
    case True
    from Cons[of "Suc (Suc k)"] obtain ms where ms:
      "fst (mutation opts (nums cs) rnd (Suc (Suc k))) = nums ms"
      "list_all2 (\<lambda>m c. m = c \<or> \<bar>m - c\<bar> \<le> mutationRange opts) ms cs" by blast
    have "fst (mutation opts (nums (c # cs)) rnd k) = nums ((c + ?d) # ms)"
      using True ms(1) by (auto simp: js_add_def split: prod.splits)
    moreover have "list_all2 (\<lambda>m c. m = c \<or> \<bar>m - c\<bar> \<le> mutationRange opts) ((c + ?d) # ms) (c # cs)"
      using ms(2) d by simp
    ultimately show ?thesis by blast
  next
    case False
    from Cons[of "Suc k"] obtain ms where ms:
      "fst (mutation opts (nums cs) rnd (Suc k)) = nums ms"
      "list_all2 (\<lambda>m c. m = c \<or> \<bar>m - c\<bar> \<le> mutationRange opts) ms cs" by blast
    have "fst (mutation opts (nums (c # cs)) rnd k) = nums (c # ms)"
      using False ms(1) by (auto split: prod.splits)
    moreover have "list_all2 (\<lambda>m c. m = c \<or> \<bar>m - c\<bar> \<le> mutationRange opts) (c # ms) (c # cs)"
      using ms(2) by simp
    ultimately show ?thesis by blast
  qed
qed

lemma mutation_nums_no_draw:
  assumes "\<forall>n. mutationRate opts < rnd n"
  shows "fst (mutation opts (nums cs) rnd k) = nums cs"
proof (induction cs arbitrary: k)
  case Nil
  then show ?case by simp
next
  case (Cons c cs)
  have "\<not> rnd k \<le> mutationRate opts" using assms by (simp add: not_le)
  then show ?case using Cons[of "Suc k"] by (auto split: prod.splits)
qed

lemma breed_loop_all:
  assumes "\<And>k cw k1 mw k2.
     crossover (weights_save (network (JSON_genome g1))) (weights_save (network g2)) 0 rnd k = (cw, k1)
     \<Longrightarrow> mutation opts cw rnd k1 = (mw, k2)
     \<Longrightarrow> P ((JSON_genome g1)\<lparr>network := (network (JSON_genome g1))\<lparr>weights_save := mw\<rparr>\<rparr>)"
  shows "\<forall>c \<in> set (fst (breed_loop opts g1 g2 nb dataSet rnd k)). c \<in> set dataSet \<or> P c"
proof (induction nb arbitrary: dataSet k)
  case 0
  then show ?case by simp
next
  case (Suc nb)
  obtain cw k1 where cw: "crossover (weights_save (network (JSON_genome g1)))
      (weights_save (network g2)) 0 rnd k = (cw, k1)"
    by (cases "crossover (weights_save (network (JSON_genome g1))) (weights_save (network g2)) 0 rnd k")
  obtain mw k2 where mw: "mutation opts cw rnd k1 = (mw, k2)" by (cases "mutation opts cw rnd k1")
  let ?c = "(JSON_genome g1)\<lparr>network := (network (JSON_genome g1))\<lparr>weights_save := mw\<rparr>\<rparr>"
  have P: "P ?c" using assms[OF cw mw] .
  have step: "breed_loop opts g1 g2 (Suc nb) dataSet rnd k
                = breed_loop opts g1 g2 nb (dataSet @ [?c]) rnd k2"
    using cw mw by (simp add: Let_def)
  show ?case unfolding step using Suc[of "dataSet @ [?c]" k2] P by auto
qed

lemma breed_weights_bounded:
  assumes "weights_save (network g1) = nums as" "weights_save (network g2) = nums bs"
    and "length as = length bs" "0 \<le> mutationRange opts" "\<forall>n. 0 \<le> rnd n \<and> rnd n < 1"
  shows "\<forall>c \<in> set (fst (breed opts g1 g2 nbchildren rnd k)).
           \<exists>cs ms. weights_save (network c) = nums ms
             \<and> list_all2 (\<lambda>c (a, b). c = a \<or> c = b) cs (zip as bs)
             \<and> list_all2 (\<lambda>m c. m = c \<or> \<bar>m - c\<bar> \<le> mutationRange opts) ms cs"
proof -
  let ?P = "\<lambda>c. \<exists>cs ms. weights_save (network c) = nums ms
             \<and> list_all2 (\<lambda>c (a, b). c = a \<or> c = b) cs (zip as bs)
             \<and> list_all2 (\<lambda>m c. m = c \<or> \<bar>m - c\<bar> \<le> mutationRange opts) ms cs"
  have clone: "weights_save (network (JSON_genome g1)) = nums as"
    using assms(1) by (simp add: JSON_genome_def JSON_save_def JSON_nums)
  have "?P ((JSON_genome g1)\<lparr>network := (network (JSON_genome g1))\<lparr>weights_save := mw\<rparr>\<rparr>)"
    if cw: "crossover (weights_save (network (JSON_genome g1))) (weights_save (network g2)) 0 rnd k
              = (cw, k1)"
      and mw: "mutation opts cw rnd k1 = (mw, k2)" for k cw k1 mw k2
  proof -
    from crossover_nums[OF assms(3), of "[]" rnd k] cw clone assms(2)
    obtain cs where cs: "cw = nums cs" "list_all2 (\<lambda>c (a, b). c = a \<or> c = b) cs (zip as bs)"
      by auto
    from mutation_nums[OF assms(4,5), of cs k1] mw cs(1)
    obtain ms where ms: "mw = nums ms"
      "list_all2 (\<lambda>m c. m = c \<or> \<bar>m - c\<bar> \<le> mutationRange opts) ms cs" by auto
    show ?thesis using cs(2) ms by auto
  qed
  from breed_loop_all[of g1 g2 rnd opts ?P nbchildren "[]" k, OF this]
  show ?thesis by (simp add: breed_def)
qed

lemma breed_weights_unmutated:
  assumes "weights_save (network g1) = nums as" "weights_save (network g2) = nums bs"
    and "length as = length bs" "\<forall>n. mutationRate opts < rnd n"
  shows "\<forall>c \<in> set (fst (breed opts g1 g2 nbchildren rnd k)).
           \<exists>cs. weights_save (network c) = nums cs
             \<and> list_all2 (\<lambda>c (a, b). c = a \<or> c = b) cs (zip as bs)"
proof -
  let ?P = "\<lambda>c. \<exists>cs. weights_save (network c) = nums cs
             \<and> list_all2 (\<lambda>c (a, b). c = a \<or> c = b) cs (zip as bs)"
  have clone: "weights_save (network (JSON_genome g1)) = nums as"
    using assms(1) by (simp add: JSON_genome_def JSON_save_def JSON_nums)
  have "?P ((JSON_genome g1)\<lparr>network := (network (JSON_genome g1))\<lparr>weights_save := mw\<rparr>\<rparr>)"
    if cw: "crossover (weights_save (network (JSON_genome g1))) (weights_save (network g2)) 0 rnd k
              = (cw, k1)"
      and mw: "mutation opts cw rnd k1 = (mw, k2)" for k cw k1 mw k2
  proof -
    from crossover_nums[OF assms(3), of "[]" rnd k] cw clone assms(2)
    obtain cs where cs: "cw = nums cs" "list_all2 (\<lambda>c (a, b). c = a \<or> c = b) cs (zip as bs)"
      by auto
    from mutation_nums_no_draw[OF assms(4), of cs k1] mw cs(1) have "mw = nums cs" by simp
    then show ?thesis using cs(2) by auto
  qed
  from breed_loop_all[of g1 g2 rnd opts ?P nbchildren "[]" k, OF this]
  show ?thesis by (simp add: breed_def)
qed

text \<open>
  Claim C8 says that with \<^verbatim>\<open>mutationRate\<close> 0 every weight of a child is parent A's or
  parent B's weight at that index. The test is \<^verbatim>\<open>Math.random() <= options.mutationRate\<close>,
  so a draw of exactly 0 mutates: with parents of weight 1 and 3, a first draw of 0.75
  (no crossover) and then draws of 0, the child has weight 0.5.
\<close>

theorem breed_mutates_at_rate_zero:
  "mutationRate optsM = 0
   \<and> (\<forall>n. 0 \<le> rndZ n \<and> rndZ n < 1)
   \<and> length (weights_save (network (gm 10 1))) = length (weights_save (network (gm 5 3)))
   \<and> fst (breed optsM (gm 10 1) (gm 5 3) 1 rndZ 0) = [gm 10 (1 / 2)]"
  by (simp add: optsM_def rndZ_def opts0_def gm_def Genome_def sv0_def
      JSON_save_def JSON_genome_def breed_def js_assign_def js_add_def Let_def)

end
